theory Spec2Isabelle
  imports Main
begin

section \<open>Go values\<close>

text \<open>
  A Go \<open>string\<close> and a Go \<open>[]byte\<close> are sequences of bytes; both are modelled as
  \<^typ>\<open>string\<close>, whose characters are bytes. A Go \<open>error\<close> is modelled by its message
  (\<open>fmt.Errorf\<close> with \<open>%w\<close> yields the message of the wrapped error in place).
\<close>

type_synonym bytes = string

datatype error = Error string

definition byte :: "char \<Rightarrow> nat" where
  "byte c = of_char c"

section \<open>HTTP headers (\<open>net/http.Header\<close>)\<close>

text \<open>
  \<open>http.Header\<close> is \<open>map[string][]string\<close>. \<open>Get\<close>, \<open>Set\<close>, \<open>Add\<close> and \<open>Del\<close>
  canonicalise the key with \<open>textproto.CanonicalMIMEHeaderKey\<close>: a key holding a byte
  that is not a token character is left as it is, any other key gets an upper-case
  letter first and after every hyphen and lower-case letters elsewhere.
\<close>

type_synonym Header = "string \<rightharpoonup> string list"

definition isLowerByte :: "char \<Rightarrow> bool" where
  "isLowerByte c = (97 \<le> byte c \<and> byte c \<le> 122)"

definition isUpperByte :: "char \<Rightarrow> bool" where
  "isUpperByte c = (65 \<le> byte c \<and> byte c \<le> 90)"

definition isDigitByte :: "char \<Rightarrow> bool" where
  "isDigitByte c = (48 \<le> byte c \<and> byte c \<le> 57)"

definition validHeaderFieldByte :: "char \<Rightarrow> bool" where
  "validHeaderFieldByte c =
     (isLowerByte c \<or> isUpperByte c \<or> isDigitByte c \<or>
      byte c \<in> {33, 35, 36, 37, 38, 39, 42, 43, 45, 46, 94, 95, 96, 124, 126})"

fun canonicalMIMEHeaderKey :: "bool \<Rightarrow> string \<Rightarrow> string" where
  "canonicalMIMEHeaderKey upper [] = []"
| "canonicalMIMEHeaderKey upper (c # cs) =
     (let c' = (if upper \<and> isLowerByte c then char_of (byte c - 32)
                else if \<not> upper \<and> isUpperByte c then char_of (byte c + 32)
                else c)
      in c' # canonicalMIMEHeaderKey (c' = CHR ''-'') cs)"

definition CanonicalMIMEHeaderKey :: "string \<Rightarrow> string" where
  "CanonicalMIMEHeaderKey s =
     (if list_all validHeaderFieldByte s then canonicalMIMEHeaderKey True s else s)"

definition Header_Get :: "Header \<Rightarrow> string \<Rightarrow> string" where
  "Header_Get h key =
     (case h (CanonicalMIMEHeaderKey key) of
        None \<Rightarrow> []
      | Some [] \<Rightarrow> []
      | Some (v # _) \<Rightarrow> v)"

definition Header_Set :: "Header \<Rightarrow> string \<Rightarrow> string \<Rightarrow> Header" where
  "Header_Set h key val = h(CanonicalMIMEHeaderKey key \<mapsto> [val])"

definition Header_Add :: "Header \<Rightarrow> string \<Rightarrow> string \<Rightarrow> Header" where
  "Header_Add h key val =
     h(CanonicalMIMEHeaderKey key \<mapsto>
         (case h (CanonicalMIMEHeaderKey key) of None \<Rightarrow> [] | Some vs \<Rightarrow> vs) @ [val])"

definition Header_Del :: "Header \<Rightarrow> string \<Rightarrow> Header" where
  "Header_Del h key = h(CanonicalMIMEHeaderKey key := None)"

section \<open>The real response sink (\<open>http.ResponseWriter\<close>)\<close>

text \<open>
  The real sink is an interface value. It is modelled by what the plugin can observe of
  it and do to it: its live header map, the calls it has received so far (in order), the
  name of its dynamic type (what \<open>%T\<close> prints) and, when it also implements
  \<open>http.Hijacker\<close>, the triple its own \<open>Hijack\<close> returns. The sink accepts every write
  in full and its header map is never \<open>nil\<close>.
\<close>

datatype net_Conn = Conn nat

datatype bufio_ReadWriter = ReadWriter nat

type_synonym hijack_result = "net_Conn option \<times> bufio_ReadWriter option \<times> error option"

datatype sink_call = SinkWriteHeader int | SinkWrite bytes | SinkHijack

record ResponseWriter =
  header :: Header
  received :: "sink_call list"
  dynamic_type :: string
  hijacker :: "hijack_result option"

definition sink_WriteHeader :: "ResponseWriter \<Rightarrow> int \<Rightarrow> ResponseWriter" where
  "sink_WriteHeader s c = s\<lparr>received := received s @ [SinkWriteHeader c]\<rparr>"

definition sink_Write :: "ResponseWriter \<Rightarrow> bytes \<Rightarrow> ResponseWriter" where
  "sink_Write s b = s\<lparr>received := received s @ [SinkWrite b]\<rparr>"

definition sink_Hijack :: "ResponseWriter \<Rightarrow> ResponseWriter" where
  "sink_Hijack s = s\<lparr>received := received s @ [SinkHijack]\<rparr>"

section \<open>The buffering adapter (\<open>wrappedResponseWriter\<close>)\<close>

record wrappedResponseWriter =
  wrapped_w :: ResponseWriter
  wrapped_buf :: bytes
  wrapped_code :: int

definition wrapped_Header :: "wrappedResponseWriter \<Rightarrow> Header" where
  "wrapped_Header r = header (wrapped_w r)"

text \<open>\<open>Write\<close> returns what \<open>bytes.Buffer.Write\<close> returns: the length and no error.\<close>

definition Write :: "wrappedResponseWriter \<Rightarrow> bytes \<Rightarrow> (nat \<times> error option) \<times> wrappedResponseWriter" where
  "Write r b = ((length b, None), r\<lparr>wrapped_buf := wrapped_buf r @ b\<rparr>)"

definition WriteHeader :: "wrappedResponseWriter \<Rightarrow> int \<Rightarrow> wrappedResponseWriter" where
  "WriteHeader r c = r\<lparr>wrapped_code := c\<rparr>"

text \<open>
  \<open>io.Copy(dst, buf)\<close> with a \<open>*bytes.Buffer\<close> source runs \<open>buf.WriteTo(dst)\<close>: one
  \<open>Write\<close> of all unread bytes when there are any, none otherwise, and the buffer is
  empty afterwards. It returns the sink and the buffer.
\<close>

definition io_Copy :: "ResponseWriter \<Rightarrow> bytes \<Rightarrow> ResponseWriter \<times> bytes" where
  "io_Copy dst b = (if b = [] then (dst, []) else (sink_Write dst b, []))"

definition Flush :: "wrappedResponseWriter \<Rightarrow> wrappedResponseWriter" where
  "Flush r =
     (let s1 = sink_WriteHeader (wrapped_w r) (wrapped_code r);
          (s2, b) = io_Copy s1 (wrapped_buf r)
      in r\<lparr>wrapped_w := s2, wrapped_buf := b\<rparr>)"

definition Hijack :: "wrappedResponseWriter \<Rightarrow> hijack_result \<times> wrappedResponseWriter" where
  "Hijack r =
     (case hijacker (wrapped_w r) of
        None \<Rightarrow>
          ((None, None, Some (Error (dynamic_type (wrapped_w r) @ '' is not an http.Hijacker''))), r)
      | Some res \<Rightarrow> (res, r\<lparr>wrapped_w := sink_Hijack (wrapped_w r)\<rparr>))"

section \<open>Runes and template expansion (\<open>unicode/utf8\<close>, \<open>regexp\<close>)\<close>

text \<open>
  \<open>utf8.DecodeRuneInString\<close>: the first rune of a string and its width in bytes. An
  invalid or truncated encoding is the rune \<open>U+FFFD\<close> of width 1, the empty string is
  \<open>U+FFFD\<close> of width 0.
\<close>

definition RuneError :: nat where
  "RuneError = 65533"

definition DecodeRuneInString :: "string \<Rightarrow> nat \<times> nat" where
  "DecodeRuneInString s =
     (case s of
        [] \<Rightarrow> (RuneError, 0)
      | c0 # _ \<Rightarrow>
          (let s0 = byte c0 in
           if s0 < 128 then (s0, 1)
           else if s0 < 194 \<or> 244 < s0 then (RuneError, 1)
           else
             (let sz = (if s0 < 224 then 2 else if s0 < 240 then 3 else 4 :: nat);
                  lo = (if s0 = 224 then 160 else if s0 = 240 then 144 else 128 :: nat);
                  hi = (if s0 = 237 then 159 else if s0 = 244 then 143 else 191 :: nat)
              in if length s < sz then (RuneError, 1)
                 else
                   (let s1 = byte (s ! 1) in
                    if s1 < lo \<or> hi < s1 then (RuneError, 1)
                    else if sz \<le> 2 then ((s0 mod 32) * 64 + s1 mod 64, 2)
                    else
                      (let s2 = byte (s ! 2) in
                       if s2 < 128 \<or> 191 < s2 then (RuneError, 1)
                       else if sz \<le> 3
                         then ((s0 mod 16) * 4096 + (s1 mod 64) * 64 + s2 mod 64, 3)
                       else
                         (let s3 = byte (s ! 3) in
                          if s3 < 128 \<or> 191 < s3 then (RuneError, 1)
                          else ((s0 mod 8) * 262144 + (s1 mod 64) * 4096
                                  + (s2 mod 64) * 64 + s3 mod 64, 4)))))))"

text \<open>
  The Unicode tables behind \<open>unicode.IsLetter\<close> and \<open>unicode.IsDigit\<close> are a parameter
  \<open>U\<close> of the model: \<open>U r\<close> says whether the rune \<open>r\<close> is a letter or a digit. It is
  consulted for runes beyond ASCII only; the ASCII letters and digits are written out.
\<close>

type_synonym unicode = "nat \<Rightarrow> bool"

definition isNameRune :: "unicode \<Rightarrow> nat \<Rightarrow> bool" where
  "isNameRune U r =
     (if r < 128
      then (97 \<le> r \<and> r \<le> 122) \<or> (65 \<le> r \<and> r \<le> 90) \<or> (48 \<le> r \<and> r \<le> 57) \<or> r = 95
      else U r)"

lemma DecodeRuneInString_width:
  "s \<noteq> [] \<Longrightarrow> 1 \<le> snd (DecodeRuneInString s) \<and> snd (DecodeRuneInString s) \<le> length s"
  by (cases s) (auto simp: DecodeRuneInString_def Let_def Suc_le_eq)

text \<open>The scan loop of \<open>extract\<close>: the number of leading bytes that form name runes.\<close>

function nameLen :: "unicode \<Rightarrow> string \<Rightarrow> nat" where
  "nameLen U s =
     (if s = [] then 0
      else (let (r, size) = DecodeRuneInString s
            in if \<not> isNameRune U r then 0 else size + nameLen U (drop size s)))"
  by pat_completeness auto
termination
proof (relation "measure (\<lambda>(U, s). length s)")
  show "wf (measure (\<lambda>(U, s). length s))" by simp
next
  fix U :: unicode and s :: string and x :: "nat \<times> nat" and r size :: nat
  assume "s \<noteq> []" and "x = DecodeRuneInString s" and "(r, size) = x"
  then have "1 \<le> size" using DecodeRuneInString_width [of s] by (metis snd_conv)
  with \<open>s \<noteq> []\<close> show "((U, drop size s), (U, s)) \<in> measure (\<lambda>(U, s). length s)"
    by simp
qed

fun parseNum :: "int \<Rightarrow> string \<Rightarrow> int" where
  "parseNum num [] = num"
| "parseNum num (c # cs) =
     (if \<not> isDigitByte c \<or> 100000000 \<le> num then - 1
      else parseNum (num * 10 + int (byte c) - 48) cs)"

text \<open>
  \<open>extract\<close> (here \<open>regexp_extract\<close>) reads a leading \<open>name\<close> or \<open>{name}\<close>; \<open>None\<close> stands for \<open>ok = false\<close>,
  otherwise it gives the name, its number (\<open>-1\<close> when it is not a number) and the rest.
\<close>

definition regexp_extract :: "unicode \<Rightarrow> string \<Rightarrow> (string \<times> int \<times> string) option" where
  "regexp_extract U str0 =
     (if str0 = [] then None
      else
        (let brace = (hd str0 = CHR ''{'');
             str = (if brace then tl str0 else str0);
             i = nameLen U str
         in if i = 0 then None
            else
              (let name = take i str
               in if brace \<and> (length str \<le> i \<or> str ! i \<noteq> CHR ''}'') then None
                  else
                    (let j = (if brace then i + 1 else i);
                         num = parseNum 0 name;
                         num' = (if hd name = CHR ''0'' \<and> 1 < length name then - 1 else num)
                     in Some (name, num', drop j str)))))"

definition slice :: "string \<Rightarrow> int \<Rightarrow> int \<Rightarrow> string" where
  "slice s a b = take (nat b - nat a) (drop (nat a) s)"

definition groupText :: "string \<Rightarrow> int list \<Rightarrow> nat \<Rightarrow> string option" where
  "groupText src match i =
     (if 2 * i + 1 < length match \<and> 0 \<le> match ! (2 * i)
      then Some (slice src (match ! (2 * i)) (match ! (2 * i + 1)))
      else None)"

fun namedGroup :: "string list \<Rightarrow> nat \<Rightarrow> string \<Rightarrow> string \<Rightarrow> int list \<Rightarrow> string" where
  "namedGroup [] i name src match = []"
| "namedGroup (namei # rest) i name src match =
     (if name = namei \<and> groupText src match i \<noteq> None
      then the (groupText src match i)
      else namedGroup rest (Suc i) name src match)"

definition expandGroup :: "string list \<Rightarrow> string \<Rightarrow> int \<Rightarrow> string \<Rightarrow> int list \<Rightarrow> string" where
  "expandGroup names name num src match =
     (if 0 \<le> num
      then (case groupText src match (nat num) of None \<Rightarrow> [] | Some t \<Rightarrow> t)
      else namedGroup names 0 name src match)"

lemma after_dollar_shorter:
  "c \<in> set t \<Longrightarrow> length (tl (dropWhile (\<lambda>x. x \<noteq> c) t)) < length t"
  by (induction t) auto

lemma regexp_extract_rest:
  "regexp_extract U s = Some (name, num, rest) \<Longrightarrow> length rest \<le> length s"
  by (auto simp: regexp_extract_def Let_def split: if_splits)

text \<open>
  \<open>Regexp.expand\<close>: everything up to the next \<open>$\<close> is copied; \<open>$$\<close> gives \<open>$\<close>; a
  \<open>$\<close> that no name follows is copied as it is; \<open>$name\<close> and \<open>${name}\<close> give the text of
  the group, nothing when the group did not take part in the match.
\<close>

function expand :: "unicode \<Rightarrow> string list \<Rightarrow> bytes \<Rightarrow> string \<Rightarrow> string \<Rightarrow> int list \<Rightarrow> bytes" where
  "expand U names dst template src match =
     (if CHR ''$'' \<notin> set template then dst @ template
      else
        (let before = takeWhile (\<lambda>c. c \<noteq> CHR ''$'') template;
             after = tl (dropWhile (\<lambda>c. c \<noteq> CHR ''$'') template);
             dst1 = dst @ before
         in if after \<noteq> [] \<and> hd after = CHR ''$''
            then expand U names (dst1 @ ''$'') (tl after) src match
            else
              (case regexp_extract U after of
                 None \<Rightarrow> expand U names (dst1 @ ''$'') after src match
               | Some (name, num, rest) \<Rightarrow>
                   expand U names (dst1 @ expandGroup names name num src match) rest src match)))"
  by pat_completeness auto

termination
proof (relation "measure (\<lambda>(U, names, dst, template, src, match). length template)",
       goal_cases)
  case 1
  show ?case by simp
next
  case (2 U names dst template src match before after dst1)
  then have "length after < length template"
    using after_dollar_shorter [of "CHR ''$''" template] by simp
  moreover have "length (tl after) \<le> length after" by simp
  ultimately show ?case by simp
next
  case (3 U names dst template src match before after dst1)
  then show ?case
    using after_dollar_shorter [of "CHR ''$''" template] by simp
next
  case (4 U names dst template src match before after dst1 x2 name y num rest)
  then have "length after < length template"
    using after_dollar_shorter [of "CHR ''$''" template] by simp
  moreover have "length rest \<le> length after"
    using 4 regexp_extract_rest [of U after name num rest] by simp
  ultimately show ?case by simp
qed

declare expand.simps [simp del]

section \<open>Compiled patterns (\<open>regexp.Regexp\<close>)\<close>

text \<open>
  A compiled pattern is taken by what its matcher does and by the names of its groups.
  The matcher (\<open>doExecute\<close>) is asked for the leftmost match that starts at a position
  or later and answers with the index list of the match (two indices per group, \<open>-1\<close>
  for a group that took no part) or with \<open>nil\<close>, here \<open>[]\<close>. What every matcher of the
  library keeps to is part of the type: a match it reports has at least the two indices
  of the whole match, starts at the position asked for or later, ends where it starts or
  later, and ends inside the text. Every such matcher stands for a compiled pattern
  here, so what holds for all of them holds for every pattern \<open>regexp.Compile\<close> accepts.
\<close>

definition matchFrom :: "string \<Rightarrow> nat \<Rightarrow> int list \<Rightarrow> bool" where
  "matchFrom s pos m =
     (1 < length m \<and> int pos \<le> m ! 0 \<and> m ! 0 \<le> m ! 1 \<and> m ! 1 \<le> int (length s))"

typedef matcher =
  "{f :: string \<Rightarrow> nat \<Rightarrow> int list. \<forall>s pos. f s pos = [] \<or> matchFrom s pos (f s pos)}"
  by (rule exI [of _ "\<lambda>s pos. []"]) simp

setup_lifting type_definition_matcher

record regexp_Regexp =
  prog :: matcher
  subexpNames :: "string list"

definition doExecute :: "regexp_Regexp \<Rightarrow> string \<Rightarrow> nat \<Rightarrow> int list" where
  "doExecute re s pos = Rep_matcher (prog re) s pos"

lemma doExecute_matchFrom:
  "doExecute re s pos = [] \<or> matchFrom s pos (doExecute re s pos)"
  using Rep_matcher [of "prog re"] by (simp add: doExecute_def)

text \<open>
  \<open>allMatches\<close>: successive matches, each searched from where the last one ended; an
  empty match right after the previous match is dropped, and after an empty match the
  search moves on by one rune. \<open>n\<close> bounds the number of matches.
\<close>

function allMatches ::
  "regexp_Regexp \<Rightarrow> string \<Rightarrow> nat \<Rightarrow> nat \<Rightarrow> nat \<Rightarrow> int \<Rightarrow> int list list" where
  "allMatches re s n pos i prevMatchEnd =
     (if i < n \<and> pos \<le> length s
      then
        (let matches = doExecute re s pos
         in if matches = [] then []
            else if matches ! 1 = int pos
            then
              (let accept = (matches ! 0 \<noteq> prevMatchEnd);
                   width = snd (DecodeRuneInString (drop pos s));
                   pos' = (if 0 < width then pos + width else length s + 1)
               in (if accept then [matches] else [])
                    @ allMatches re s n pos' (if accept then i + 1 else i) (matches ! 1))
            else matches # allMatches re s n (nat (matches ! 1)) (i + 1) (matches ! 1))
      else [])"
  by pat_completeness auto
termination
proof (relation "measure (\<lambda>(re, s, n, pos, i, prevMatchEnd). length s + 1 - pos)", goal_cases)
  case 1
  show ?case by simp
next
  case (2 re s n pos i prevMatchEnd matches accept width pos')
  then show ?case by auto
next
  case (3 re s n pos i prevMatchEnd matches)
  then show ?case using doExecute_matchFrom [of re s pos] by (auto simp: matchFrom_def)
qed

declare allMatches.simps [simp del]

text \<open>
  \<open>FindAllStringSubmatchIndex(s, n)\<close> with \<open>n = -1\<close>, as \<open>ServeHTTP\<close> calls it: a
  negative \<open>n\<close> becomes \<open>len(s) + 1\<close>.
\<close>

definition FindAllStringSubmatchIndex :: "regexp_Regexp \<Rightarrow> string \<Rightarrow> int list list" where
  "FindAllStringSubmatchIndex re s = allMatches re s (length s + 1) 0 0 (- 1)"

definition ExpandString ::
  "unicode \<Rightarrow> regexp_Regexp \<Rightarrow> bytes \<Rightarrow> string \<Rightarrow> string \<Rightarrow> int list \<Rightarrow> bytes" where
  "ExpandString U re dst template src match = expand U (subexpNames re) dst template src match"

section \<open>Matching a fragment of the pattern syntax\<close>

text \<open>
  The matcher of \<open>regexp\<close> is given for a fragment of the parsed syntax
  (\<open>regexp/syntax\<close>): the empty match, one rune (a literal, \<open>.\<close> without the \<open>s\<close>
  flag, \<open>.\<close> with it), the greedy star of one rune, \<open>^\<close> and \<open>$\<close> without the \<open>m\<close>
  flag (begin and end of the text), capture groups, concatenation and alternation. The
  default pattern of the plugin lies in it. Matching is on runes: the input is decoded
  with \<open>DecodeRuneInString\<close> at every step.
\<close>

datatype rune_class = Literal nat | AnyCharNotNL | AnyChar

datatype syntax_Regexp =
    OpEmptyMatch
  | OpRune rune_class
  | OpStar rune_class
  | OpBeginText
  | OpEndText
  | OpCapture nat syntax_Regexp
  | OpConcat syntax_Regexp syntax_Regexp
  | OpAlternate syntax_Regexp syntax_Regexp

fun accepts :: "rune_class \<Rightarrow> nat \<Rightarrow> bool" where
  "accepts (Literal c) r = (r = c)"
| "accepts AnyCharNotNL r = (r \<noteq> 10)"
| "accepts AnyChar r = True"

text \<open>One rune of the class at \<open>pos\<close>: the position after it, if there is one.\<close>

definition stepRune :: "rune_class \<Rightarrow> string \<Rightarrow> nat \<Rightarrow> nat option" where
  "stepRune cls s pos =
     (if length s \<le> pos then None
      else (let (r, width) = DecodeRuneInString (drop pos s)
            in if accepts cls r then Some (pos + width) else None))"

lemma stepRune_advances:
  "stepRune cls s pos = Some pos' \<Longrightarrow> pos < pos' \<and> pos' \<le> length s"
proof -
  assume a: "stepRune cls s pos = Some pos'"
  then have lt: "pos < length s"
    by (auto simp: stepRune_def split: if_splits)
  then have ne: "drop pos s \<noteq> []" by simp
  have "pos' = pos + snd (DecodeRuneInString (drop pos s))"
    using a lt by (auto simp: stepRune_def split: if_splits prod.splits)
  moreover have "1 \<le> snd (DecodeRuneInString (drop pos s))"
    and "snd (DecodeRuneInString (drop pos s)) \<le> length s - pos"
    using DecodeRuneInString_width [OF ne] by simp_all
  ultimately show ?thesis using lt by linarith
qed

text \<open>
  The greedy star of one rune, started at \<open>pos\<close>: the positions where it can stop, the
  one after the most runes first.
\<close>

function starEnds :: "rune_class \<Rightarrow> string \<Rightarrow> nat \<Rightarrow> nat list" where
  "starEnds cls s pos =
     (case stepRune cls s pos of
        None \<Rightarrow> [pos]
      | Some pos' \<Rightarrow> starEnds cls s pos' @ [pos])"
  by pat_completeness auto
termination
proof (relation "measure (\<lambda>(cls, s, pos). length s - pos)", goal_cases)
  case 1
  show ?case by simp
next
  case (2 cls s pos pos')
  then show ?case using stepRune_advances [of cls s pos pos'] by auto
qed

declare starEnds.simps [simp del]

text \<open>
  All ways a pattern matches from a position with given capture registers, in the order
  of preference of a leftmost-first (backtracking) match: the end position and the
  registers of each.
\<close>

fun paths :: "syntax_Regexp \<Rightarrow> string \<Rightarrow> nat \<times> int list \<Rightarrow> (nat \<times> int list) list" where
  "paths OpEmptyMatch s (pos, cap) = [(pos, cap)]"
| "paths (OpRune cls) s (pos, cap) =
     (case stepRune cls s pos of None \<Rightarrow> [] | Some pos' \<Rightarrow> [(pos', cap)])"
| "paths (OpStar cls) s (pos, cap) = map (\<lambda>pos'. (pos', cap)) (starEnds cls s pos)"
| "paths OpBeginText s (pos, cap) = (if pos = 0 then [(pos, cap)] else [])"
| "paths OpEndText s (pos, cap) = (if pos = length s then [(pos, cap)] else [])"
| "paths (OpCapture n re) s (pos, cap) =
     map (\<lambda>(pos', cap'). (pos', cap'[2 * n + 1 := int pos']))
       (paths re s (pos, cap[2 * n := int pos]))"
| "paths (OpConcat a b) s (pos, cap) = concat (map (paths b s) (paths a s (pos, cap)))"
| "paths (OpAlternate a b) s (pos, cap) = paths a s (pos, cap) @ paths b s (pos, cap)"

fun numSubexp :: "syntax_Regexp \<Rightarrow> nat" where
  "numSubexp (OpCapture n re) = max n (numSubexp re)"
| "numSubexp (OpConcat a b) = max (numSubexp a) (numSubexp b)"
| "numSubexp (OpAlternate a b) = max (numSubexp a) (numSubexp b)"
| "numSubexp _ = 0"

text \<open>The match tried at one start position: the registers of the preferred way.\<close>

definition matchAt :: "syntax_Regexp \<Rightarrow> string \<Rightarrow> nat \<Rightarrow> int list" where
  "matchAt re s pos =
     (case paths re s (pos, (replicate (2 * (numSubexp re + 1)) (- 1))[0 := int pos]) of
        [] \<Rightarrow> []
      | (e, cap) # _ \<Rightarrow> cap[1 := int e])"

text \<open>
  The search of the backtracker (\<open>backtrack\<close>): the leftmost match that starts at
  \<open>pos\<close> or later, start positions advancing by one rune; \<open>[]\<close> when there is none.
\<close>

function backtrack :: "syntax_Regexp \<Rightarrow> string \<Rightarrow> nat \<Rightarrow> int list" where
  "backtrack re s pos =
     (if length s < pos then []
      else if matchAt re s pos \<noteq> [] then matchAt re s pos
      else (let width = snd (DecodeRuneInString (drop pos s))
            in if width = 0 then [] else backtrack re s (pos + width)))"
  by pat_completeness auto
termination
  by (relation "measure (\<lambda>(re, s, pos). length s + 1 - pos)") auto

declare backtrack.simps [simp del]

lemma starEnds_ge: "e \<in> set (starEnds cls s pos) \<Longrightarrow> pos \<le> e"
proof (induction cls s pos rule: starEnds.induct)
  case (1 cls s pos)
  show ?case
  proof (cases "stepRune cls s pos")
    case None
    with "1.prems" show ?thesis by (subst (asm) starEnds.simps) simp
  next
    case (Some pos')
    with "1.prems" have "e \<in> set (starEnds cls s pos') \<or> e = pos"
      by (subst (asm) starEnds.simps) auto
    with Some "1.IH" [of pos'] stepRune_advances [of cls s pos pos']
    show ?thesis by auto
  qed
qed

lemma paths_end:
  "(e, cap') \<in> set (paths re s (pos, cap)) \<Longrightarrow> pos \<le> e \<and> length cap' = length cap"
proof (induction re arbitrary: pos cap e cap')
  case (OpRune cls)
  then show ?case
    using stepRune_advances [of cls s pos e]
    by (cases "stepRune cls s pos") auto
next
  case (OpStar cls)
  then show ?case using starEnds_ge [of e cls s pos] by auto
next
  case (OpConcat a b)
  from OpConcat.prems obtain m c where
    1: "(m, c) \<in> set (paths a s (pos, cap))" and 2: "(e, cap') \<in> set (paths b s (m, c))"
    by auto
  from OpConcat.IH(1) [OF 1] OpConcat.IH(2) [OF 2] show ?case by simp
next
  case (OpCapture n re)
  then show ?case by fastforce
qed (auto split: if_splits)
lemma matchAt_end:
  "matchAt re s pos \<noteq> [] \<Longrightarrow> 1 < length (matchAt re s pos) \<and> int pos \<le> matchAt re s pos ! 1"
proof -
  assume a: "matchAt re s pos \<noteq> []"
  let ?c0 = "(replicate (2 * (numSubexp re + 1)) (- 1 :: int))[0 := int pos]"
  from a obtain e cap rest where p: "paths re s (pos, ?c0) = (e, cap) # rest"
    by (auto simp: matchAt_def split: list.splits)
  then have "(e, cap) \<in> set (paths re s (pos, ?c0))" by simp
  from paths_end [OF this] have "pos \<le> e" and "length cap = 2 * (numSubexp re + 1)" by simp_all
  moreover have "matchAt re s pos = cap[1 := int e]" using p by (simp add: matchAt_def)
  ultimately show ?thesis by simp
qed

lemma backtrack_end:
  "backtrack re s pos \<noteq> [] \<Longrightarrow>
     1 < length (backtrack re s pos) \<and> int pos \<le> backtrack re s pos ! 1"
proof (induction re s pos rule: backtrack.induct)
  case (1 re s pos)
  show ?case
  proof (cases "matchAt re s pos \<noteq> []")
    case True
    from "1.prems" have "\<not> length s < pos"
      by (subst (asm) backtrack.simps) (simp split: if_splits)
    then have "backtrack re s pos = matchAt re s pos"
      using True by (subst backtrack.simps) simp
    with matchAt_end [OF True] show ?thesis by simp
  next
    case False
    let ?w = "snd (DecodeRuneInString (drop pos s))"
    from "1.prems" False have le: "\<not> length s < pos" and w: "?w \<noteq> 0"
      by (subst (asm) backtrack.simps, simp add: Let_def split: if_splits)+
    have eq: "backtrack re s pos = backtrack re s (pos + ?w)"
      using le False w by (subst backtrack.simps) (simp add: Let_def)
    with "1.prems" have ne: "backtrack re s (pos + ?w) \<noteq> []" by simp
    from False have m: "\<not> matchAt re s pos \<noteq> []" by simp
    from "1.IH" [OF le m refl w ne]
    have "1 < length (backtrack re s (pos + ?w)) \<and> int (pos + ?w) \<le> backtrack re s (pos + ?w) ! 1" .
    with eq show ?thesis by simp
  qed
qed
lemma starEnds_le: "e \<in> set (starEnds cls s pos) \<Longrightarrow> pos \<le> length s \<Longrightarrow> e \<le> length s"
proof (induction cls s pos rule: starEnds.induct)
  case (1 cls s pos)
  show ?case
  proof (cases "stepRune cls s pos")
    case None
    with "1.prems" show ?thesis by (subst (asm) starEnds.simps) simp
  next
    case (Some pos')
    with "1.prems" have "e \<in> set (starEnds cls s pos') \<or> e = pos"
      by (subst (asm) starEnds.simps) auto
    with Some "1.IH" [of pos'] "1.prems"(2) stepRune_advances [of cls s pos pos']
    show ?thesis by auto
  qed
qed

lemma paths_le:
  "(e, cap') \<in> set (paths re s (pos, cap)) \<Longrightarrow> pos \<le> length s \<Longrightarrow> e \<le> length s"
proof (induction re arbitrary: pos cap e cap')
  case (OpRune cls)
  then show ?case
    using stepRune_advances [of cls s pos e]
    by (cases "stepRune cls s pos") auto
next
  case (OpStar cls)
  then show ?case using starEnds_le [of e cls s pos] by auto
next
  case (OpConcat a b)
  from OpConcat.prems obtain m c where
    1: "(m, c) \<in> set (paths a s (pos, cap))" and 2: "(e, cap') \<in> set (paths b s (m, c))"
    by auto
  from OpConcat.IH(1) [OF 1 OpConcat.prems(2)] OpConcat.IH(2) [OF 2] show ?case by simp
next
  case (OpCapture n re)
  then show ?case by fastforce
qed (auto split: if_splits)

lemma paths_register_0:
  "(e, cap') \<in> set (paths re s (pos, cap)) \<Longrightarrow> lo \<le> cap ! 0 \<Longrightarrow> cap ! 0 \<le> int pos \<Longrightarrow>
     lo \<le> cap' ! 0 \<and> cap' ! 0 \<le> int e"
proof (induction re arbitrary: pos cap e cap')
  case (OpRune cls)
  then show ?case
    using stepRune_advances [of cls s pos e]
    by (cases "stepRune cls s pos") auto
next
  case (OpStar cls)
  then show ?case using starEnds_ge [of e cls s pos] by auto
next
  case (OpConcat a b)
  from OpConcat.prems obtain m c where
    1: "(m, c) \<in> set (paths a s (pos, cap))" and 2: "(e, cap') \<in> set (paths b s (m, c))"
    by auto
  from OpConcat.IH(1) [OF 1 OpConcat.prems(2,3)] have "lo \<le> c ! 0" "c ! 0 \<le> int m" by simp_all
  from OpConcat.IH(2) [OF 2 this] show ?case .
next
  case (OpCapture n re)
  from OpCapture.prems(1) obtain c where
    1: "(e, c) \<in> set (paths re s (pos, cap[2 * n := int pos]))"
    and 2: "cap' = c[2 * n + 1 := int e]"
    by auto
  have "lo \<le> cap[2 * n := int pos] ! 0 \<and> cap[2 * n := int pos] ! 0 \<le> int pos"
    using OpCapture.prems(2,3)
    by (cases "n = 0") (cases "0 < length cap"; simp)+
  with OpCapture.IH [OF 1] have "lo \<le> c ! 0 \<and> c ! 0 \<le> int e" by simp
  with 2 show ?case by simp
qed (auto split: if_splits)

lemma matchAt_bounds:
  assumes "matchAt re s pos \<noteq> []" and "pos \<le> length s"
  shows "int pos \<le> matchAt re s pos ! 0 \<and> matchAt re s pos ! 0 \<le> matchAt re s pos ! 1
         \<and> matchAt re s pos ! 1 \<le> int (length s)"
proof -
  let ?c0 = "(replicate (2 * (numSubexp re + 1)) (- 1 :: int))[0 := int pos]"
  from assms(1) obtain e cap rest where p: "paths re s (pos, ?c0) = (e, cap) # rest"
    by (auto simp: matchAt_def split: list.splits)
  then have mem: "(e, cap) \<in> set (paths re s (pos, ?c0))" by simp
  have c0: "?c0 ! 0 = int pos" by simp
  from paths_end [OF mem] have len: "length cap = 2 * (numSubexp re + 1)" by simp
  from paths_le [OF mem assms(2)] have le: "e \<le> length s" .
  from paths_register_0 [OF mem, of "int pos"] c0
  have r: "int pos \<le> cap ! 0 \<and> cap ! 0 \<le> int e" by simp
  have m: "matchAt re s pos = cap[1 := int e]" using p by (simp add: matchAt_def)
  show ?thesis using r le len by (simp add: m)
qed

lemma backtrack_bounds:
  "backtrack re s pos \<noteq> [] \<Longrightarrow>
     int pos \<le> backtrack re s pos ! 0 \<and> backtrack re s pos ! 0 \<le> backtrack re s pos ! 1
     \<and> backtrack re s pos ! 1 \<le> int (length s)"
proof (induction re s pos rule: backtrack.induct)
  case (1 re s pos)
  from "1.prems" have le: "\<not> length s < pos"
    by (subst (asm) backtrack.simps) (simp split: if_splits)
  show ?case
  proof (cases "matchAt re s pos \<noteq> []")
    case True
    then have "backtrack re s pos = matchAt re s pos"
      using le by (subst backtrack.simps) simp
    with matchAt_bounds [OF True] le show ?thesis by simp
  next
    case False
    let ?w = "snd (DecodeRuneInString (drop pos s))"
    from "1.prems" False le have w: "?w \<noteq> 0"
      by (subst (asm) backtrack.simps) (simp add: Let_def split: if_splits)
    have eq: "backtrack re s pos = backtrack re s (pos + ?w)"
      using le False w by (subst backtrack.simps) (simp add: Let_def)
    with "1.prems" have ne: "backtrack re s (pos + ?w) \<noteq> []" by simp
    from False have m: "\<not> matchAt re s pos \<noteq> []" by simp
    from "1.IH" [OF le m refl w ne] eq show ?thesis by simp
  qed
qed

text \<open>
  The matcher of a syntax tree, and its compiled pattern; the fragment has no named
  groups.
\<close>

lift_definition backtracker :: "syntax_Regexp \<Rightarrow> matcher" is backtrack
proof -
  fix re s pos
  show "backtrack re s pos = [] \<or> matchFrom s pos (backtrack re s pos)"
    using backtrack_end [of re s pos] backtrack_bounds [of re s pos]
    by (auto simp: matchFrom_def)
qed

definition compileSyntax :: "syntax_Regexp \<Rightarrow> regexp_Regexp" where
  "compileSyntax re =
     \<lparr>prog = backtracker re, subexpNames = replicate (numSubexp re + 1) []\<rparr>"

text \<open>The syntax tree of the default pattern \<open>^(.*)$\<close> of \<open>CreateConfig\<close>.\<close>

definition defaultSyntax :: syntax_Regexp where
  "defaultSyntax =
     OpConcat OpBeginText (OpConcat (OpCapture 1 (OpStar AnyCharNotNL)) OpEndText)"

section \<open>Request contexts (\<open>context.Context\<close>, \<open>CustomContext\<close>)\<close>

text \<open>
  A value of type \<open>interface{}\<close> carries its dynamic type: \<open>nil\<close>, a \<open>string\<close>, an
  \<open>int\<close>, a \<open>bool\<close>, or a value of a defined type (\<open>type traceKey string\<close>) given by
  the type's name and the underlying value. Two interface values are equal when type and
  value are.
\<close>

datatype any = AnyNil | AnyString string | AnyInt int | AnyBool bool | AnyDefined string any

datatype panic = Panic string

text \<open>
  A context is the background context, a \<open>context.WithValue\<close> layer (parent, key,
  value) or this package's \<open>CustomContext\<close> (embedded parent, which may be \<open>nil\<close>, and
  the map \<open>values\<close>).
\<close>

datatype Context =
    Background
  | valueCtx Context any any
  | CustomContext "Context option" "any \<rightharpoonup> any"

fun Value :: "Context \<Rightarrow> any \<Rightarrow> panic + any" where
  "Value Background key = Inr AnyNil"
| "Value (valueCtx parent k v) key = (if k = key then Inr v else Value parent key)"
| "Value (CustomContext parent values) key =
     (case values key of
        Some val \<Rightarrow> Inr val
      | None \<Rightarrow>
          (case parent of
             None \<Rightarrow> Inl (Panic ''invalid memory address or nil pointer dereference'')
           | Some c \<Rightarrow> Value c key))"

definition NewCustomContext :: "Context option \<Rightarrow> Context" where
  "NewCustomContext parent = CustomContext parent Map.empty"

text \<open>\<open>WithValue\<close> is a method of \<open>CustomContext\<close>: it is given for that receiver only.\<close>

fun WithValue :: "Context \<Rightarrow> any \<Rightarrow> any \<Rightarrow> Context" where
  "WithValue (CustomContext parent values) key val = CustomContext parent (values(key \<mapsto> val))"

text \<open>The type assertion \<open>v.(string)\<close>.\<close>

fun assertString :: "any \<Rightarrow> string option" where
  "assertString (AnyString s) = Some s"
| "assertString _ = None"

section \<open>Requests and downstream handlers\<close>

record Request =
  req_Header :: Header
  req_Context :: Context

text \<open>
  The downstream handler is an arbitrary \<open>http.Handler\<close>. A run of it against the
  adapter is the sequence of calls it makes on the adapter (through \<open>Header()\<close>, which
  is the sink's own map, \<open>Write\<close>, \<open>WriteHeader\<close>, and the methods it can reach by a
  type assertion, \<open>Hijack\<close> and \<open>Flush\<close>), and then it either returns or panics. The
  handler leaves the request as it got it, as the contract of \<open>http.Handler\<close> asks.
\<close>

datatype handler_call =
    CallHeaderSet string string
  | CallHeaderAdd string string
  | CallHeaderDel string
  | CallHeaderStore string "string list option"
  | CallWrite bytes
  | CallWriteHeader int
  | CallFlush
  | CallHijack

datatype handler_end = Returns | Panics

type_synonym Handler = "Request \<Rightarrow> handler_call list \<times> handler_end"

definition withHeader :: "wrappedResponseWriter \<Rightarrow> Header \<Rightarrow> wrappedResponseWriter" where
  "withHeader r h = r\<lparr>wrapped_w := (wrapped_w r)\<lparr>header := h\<rparr>\<rparr>"

fun call :: "wrappedResponseWriter \<Rightarrow> handler_call \<Rightarrow> wrappedResponseWriter" where
  "call r (CallHeaderSet k v) = withHeader r (Header_Set (wrapped_Header r) k v)"
| "call r (CallHeaderAdd k v) = withHeader r (Header_Add (wrapped_Header r) k v)"
| "call r (CallHeaderDel k) = withHeader r (Header_Del (wrapped_Header r) k)"
| "call r (CallHeaderStore k vs) = withHeader r ((wrapped_Header r)(k := vs))"
| "call r (CallWrite b) = snd (Write r b)"
| "call r (CallWriteHeader c) = WriteHeader r c"
| "call r CallFlush = Flush r"
| "call r CallHijack = snd (Hijack r)"

definition calls :: "wrappedResponseWriter \<Rightarrow> handler_call list \<Rightarrow> wrappedResponseWriter" where
  "calls r cs = foldl call r cs"

section \<open>The plugin\<close>

record Config =
  From :: string
  To :: string
  Regexp :: string
  Replacement :: string
  Overwrite :: bool

definition CreateConfig :: Config where
  "CreateConfig =
     \<lparr>From = [], To = [], Regexp = ''^(.*)$'', Replacement = ''$1'', Overwrite = False\<rparr>"

record plugin =
  plugin_name :: string
  plugin_next :: Handler
  plugin_config :: Config
  plugin_regex :: regexp_Regexp

datatype outcome = Returned | Panicked

text \<open>
  The loop of \<open>ServeHTTP\<close> over the matches: every match appends its expansion to
  \<open>replacement\<close>, which starts out \<open>nil\<close>.
\<close>

definition replacementOf :: "unicode \<Rightarrow> plugin \<Rightarrow> string \<Rightarrow> bytes" where
  "replacementOf U p src =
     foldl (\<lambda>replacement match.
              ExpandString U (plugin_regex p) replacement (Replacement (plugin_config p)) src match)
       [] (FindAllStringSubmatchIndex (plugin_regex p) src)"

text \<open>
  The part of \<open>ServeHTTP\<close> after the deferred call is registered: the downstream handler
  runs against the adapter, then the rewrite. It gives how the function leaves (by
  \<open>return\<close> or by a panic) and the adapter at that point.
\<close>

definition serveBody ::
  "unicode \<Rightarrow> plugin \<Rightarrow> wrappedResponseWriter \<Rightarrow> Request \<Rightarrow> outcome \<times> wrappedResponseWriter" where
  "serveBody U p resp0 req =
     (let (cs, ending) = plugin_next p req;
          resp = calls resp0 cs
      in if ending = Panics then (Panicked, resp)
         else if \<not> Overwrite (plugin_config p)
                 \<and> Header_Get (wrapped_Header resp) (To (plugin_config p)) \<noteq> []
           then (Returned, resp)
         else
           (let src = Header_Get (req_Header req) (From (plugin_config p))
            in if src = [] then (Returned, resp)
               else
                 (let replacement = replacementOf U p src
                  in if 0 < length replacement
                     then
                       (case Value (req_Context req) (AnyString ''tracing.traceID'') of
                          Inl _ \<Rightarrow> (Panicked, resp)
                        | Inr v \<Rightarrow>
                            (case assertString v of
                               Some traceID \<Rightarrow>
                                 (Returned,
                                  withHeader resp
                                    (Header_Set (wrapped_Header resp) (To (plugin_config p)) traceID))
                             | None \<Rightarrow> (Returned, resp)))
                     else (Returned, resp))))"

text \<open>
  \<open>ServeHTTP\<close>: the \<open>traceparent\<close> header is printed, the adapter is made (empty buffer,
  code 200), \<open>Flush\<close> is deferred, the body runs, and the deferred \<open>Flush\<close> runs when
  the function leaves, by return or by panic. The result is how it left, the real sink
  afterwards and what was printed.
\<close>

record served =
  served_outcome :: outcome
  served_sink :: ResponseWriter
  served_stdout :: string

definition wrap :: "ResponseWriter \<Rightarrow> wrappedResponseWriter" where
  "wrap w = \<lparr>wrapped_w = w, wrapped_buf = [], wrapped_code = 200\<rparr>"

definition ServeHTTP :: "unicode \<Rightarrow> plugin \<Rightarrow> ResponseWriter \<Rightarrow> Request \<Rightarrow> served" where
  "ServeHTTP U p w req =
     (let src11 = Header_Get (req_Header req) ''traceparent'';
          printed = ''testtrace: '' @ src11 @ [CHR 0x0A];
          resp = wrap w;
          (oc, resp') = serveBody U p resp req;
          resp'' = Flush resp'
      in \<lparr>served_outcome = oc, served_sink = wrapped_w resp'', served_stdout = printed\<rparr>)"

text \<open>
  \<open>New\<close>. \<open>regexp.Compile\<close> is a parameter: it gives the compiled pattern or the
  error of the pattern.
\<close>

definition New ::
  "(string \<Rightarrow> error + regexp_Regexp) \<Rightarrow> Handler \<Rightarrow> Config \<Rightarrow> string \<Rightarrow> error + plugin" where
  "New Compile next config name =
     (if From config = [] then Inl (Error ''from cannot be empty'')
      else if To config = [] then Inl (Error ''to cannot be empty'')
      else
        (case Compile (Regexp config) of
           Inl (Error err) \<Rightarrow> Inl (Error (''failed to compile regexp: '' @ err))
         | Inr regex \<Rightarrow>
             Inr \<lparr>plugin_name = name, plugin_next = next, plugin_config = config,
                  plugin_regex = regex\<rparr>))"

section \<open>Notions used in the statements\<close>

text \<open>The adapter at the moment the downstream handler has finished.\<close>

definition afterNext :: "plugin \<Rightarrow> ResponseWriter \<Rightarrow> Request \<Rightarrow> wrappedResponseWriter" where
  "afterNext p w req = calls (wrap w) (fst (plugin_next p req))"

text \<open>The fixed key of the trace value, as the interface value \<open>ServeHTTP\<close> passes.\<close>

definition traceKey :: any where
  "traceKey = AnyString ''tracing.traceID''"

text \<open>
  The rewrite reaches its last step: the handler returned, neither skip applies and the
  accumulated result is not empty.
\<close>

definition reachesStep5 :: "unicode \<Rightarrow> plugin \<Rightarrow> ResponseWriter \<Rightarrow> Request \<Rightarrow> bool" where
  "reachesStep5 U p w req =
     (snd (plugin_next p req) = Returns \<and>
      (Overwrite (plugin_config p) \<or>
       Header_Get (wrapped_Header (afterNext p w req)) (To (plugin_config p)) = []) \<and>
      Header_Get (req_Header req) (From (plugin_config p)) \<noteq> [] \<and>
      replacementOf U p (Header_Get (req_Header req) (From (plugin_config p))) \<noteq> [])"

text \<open>Handler calls that only write body bytes or set the status.\<close>

fun isBuffered :: "handler_call \<Rightarrow> bool" where
  "isBuffered (CallWrite b) = True"
| "isBuffered (CallWriteHeader c) = True"
| "isBuffered _ = False"

fun written :: "handler_call list \<Rightarrow> bytes" where
  "written [] = []"
| "written (CallWrite b # cs) = b @ written cs"
| "written (_ # cs) = written cs"

fun lastCode :: "int \<Rightarrow> handler_call list \<Rightarrow> int" where
  "lastCode c [] = c"
| "lastCode c (CallWriteHeader c' # cs) = lastCode c' cs"
| "lastCode c (_ # cs) = lastCode c cs"

text \<open>
  Every \<open>Flush\<close> of the adapter sends one status line to the sink and nothing else
  does: the number of flushes so far is the number of status lines the sink received.
\<close>

fun isStatusLine :: "sink_call \<Rightarrow> bool" where
  "isStatusLine (SinkWriteHeader c) = True"
| "isStatusLine _ = False"

definition statusLines :: "ResponseWriter \<Rightarrow> nat" where
  "statusLines s = length (filter isStatusLine (received s))"

definition flushCalls :: "handler_call list \<Rightarrow> nat" where
  "flushCalls cs = length (filter (\<lambda>c. c = CallFlush) cs)"

text \<open>Matches in order, none starting before the one before it ends, all inside the text.\<close>

definition leftToRight :: "int list list \<Rightarrow> bool" where
  "leftToRight ms = sorted_wrt (\<lambda>m m'. m ! 1 \<le> m' ! 0) ms"

definition withinText :: "string \<Rightarrow> int list \<Rightarrow> bool" where
  "withinText s m = (0 \<le> m ! 0 \<and> m ! 0 \<le> m ! 1 \<and> m ! 1 \<le> int (length s))"

text \<open>
  All non-overlapping matches, left to right. The first match is the leftmost match of
  the text. The match after one that ended at \<open>e\<close> is the leftmost match that starts
  at \<open>e\<close> or later; an empty match at \<open>e\<close> itself abuts the match before and does not
  count, the leftmost match one rune further on comes instead (none at the end of the
  text). A list holds all of them when each of its matches is the next one after the
  match before it and no match comes after its last.
\<close>

fun nextAfter :: "regexp_Regexp \<Rightarrow> string \<Rightarrow> nat option \<Rightarrow> int list" where
  "nextAfter re s None = doExecute re s 0"
| "nextAfter re s (Some e) =
     (let m = doExecute re s e
      in if m = [] then []
         else if m ! 0 = int e \<and> m ! 1 = int e
           then (let width = snd (DecodeRuneInString (drop e s))
                 in if width = 0 then [] else doExecute re s (e + width))
         else m)"

fun successive :: "regexp_Regexp \<Rightarrow> string \<Rightarrow> nat option \<Rightarrow> int list list \<Rightarrow> bool" where
  "successive re s prevEnd [] = (nextAfter re s prevEnd = [])"
| "successive re s prevEnd (m # ms) =
     (m \<noteq> [] \<and> nextAfter re s prevEnd = m \<and> successive re s (Some (nat (m ! 1))) ms)"

definition allNonOverlapping :: "regexp_Regexp \<Rightarrow> string \<Rightarrow> int list list \<Rightarrow> bool" where
  "allNonOverlapping re s ms = successive re s None ms"

text \<open>
  The next match the loop of \<open>allMatches\<close> accepts from a state of its variables
  \<open>pos\<close> and \<open>prevMatchEnd\<close>.
\<close>

definition nextMatch :: "regexp_Regexp \<Rightarrow> string \<Rightarrow> nat \<Rightarrow> int \<Rightarrow> int list" where
  "nextMatch re s pos prev =
     (let m = doExecute re s pos
      in if m = [] then []
         else if m ! 1 = int pos \<and> m ! 0 = prev
           then (let width = snd (DecodeRuneInString (drop pos s))
                 in if width = 0 then [] else doExecute re s (pos + width))
         else m)"

section \<open>Example values\<close>

text \<open>
  A recording sink without and with \<open>Hijack\<close>, one that already carries the destination
  header, the default configuration with both header names filled in, downstream
  handlers (one that writes three chunks and sets status 201, one that flushes in
  between, one that panics), requests with and without the source header and with
  different contexts, Unicode tables that know no letter beyond ASCII, a stand-in
  for \<open>regexp.Compile\<close> that accepts the default pattern only, and a plugin with the
  pattern \<open>(.)\<close>, which matches every rune of a line, and the template \<open>[$1]\<close>.
\<close>

definition plainSink :: ResponseWriter where
  "plainSink =
     \<lparr>header = Map.empty, received = [], dynamic_type = ''*httptest.ResponseRecorder'',
      hijacker = None\<rparr>"

definition exampleConfig :: Config where
  "exampleConfig = CreateConfig\<lparr>From := ''X-Src'', To := ''X-Trace''\<rparr>"

definition exampleNext :: Handler where
  "exampleNext req =
     ([CallWrite ''A'', CallWrite ''B'', CallWrite ''C'', CallWriteHeader 201], Returns)"

definition examplePlugin :: plugin where
  "examplePlugin =
     \<lparr>plugin_name = ''trace'', plugin_next = exampleNext, plugin_config = exampleConfig,
      plugin_regex = compileSyntax defaultSyntax\<rparr>"

definition exampleRequest :: Request where
  "exampleRequest =
     \<lparr>req_Header = [''X-Src'' \<mapsto> [''foo'']],
      req_Context = valueCtx Background traceKey (AnyString ''abc-123'')\<rparr>"

definition asciiOnly :: unicode where
  "asciiOnly r = False"

definition presetSink :: ResponseWriter where
  "presetSink = plainSink\<lparr>header := [''X-Trace'' \<mapsto> [''keep'']]\<rparr>"

definition hijackableSink :: ResponseWriter where
  "hijackableSink =
     plainSink\<lparr>dynamic_type := ''*http.response'',
                hijacker := Some (Some (Conn 1), Some (ReadWriter 1), None)\<rparr>"

definition flushingNext :: Handler where
  "flushingNext req = ([CallWrite ''A'', CallFlush, CallWrite ''B''], Returns)"

definition panickingNext :: Handler where
  "panickingNext req = ([CallWrite ''A''], Panics)"

definition compileDefaultOnly :: "string \<Rightarrow> error + regexp_Regexp" where
  "compileDefaultOnly pattern =
     (if pattern = ''^(.*)$'' then Inr (compileSyntax defaultSyntax)
      else Inl (Error ''error parsing regexp''))"

definition untracedRequest :: Request where
  "untracedRequest = exampleRequest\<lparr>req_Context := Background\<rparr>"

definition intTracedRequest :: Request where
  "intTracedRequest = exampleRequest\<lparr>req_Context := valueCtx Background traceKey (AnyInt 7)\<rparr>"

definition typedKeyRequest :: Request where
  "typedKeyRequest =
     exampleRequest\<lparr>req_Context :=
       valueCtx Background (AnyDefined ''traceKey'' (AnyString ''tracing.traceID''))
         (AnyString ''abc-123'')\<rparr>"

definition noSourceRequest :: Request where
  "noSourceRequest = exampleRequest\<lparr>req_Header := Map.empty\<rparr>"

definition twoLinesRequest :: Request where
  "twoLinesRequest = exampleRequest\<lparr>req_Header := [''X-Src'' \<mapsto> [[CHR ''a'', CHR 0x0A, CHR ''b'']]]\<rparr>"

definition flushingPlugin :: plugin where
  "flushingPlugin = examplePlugin\<lparr>plugin_next := flushingNext\<rparr>"

definition panickingPlugin :: plugin where
  "panickingPlugin = examplePlugin\<lparr>plugin_next := panickingNext\<rparr>"

definition twoLines :: string where
  "twoLines = [CHR ''a'', CHR 0x0A, CHR ''b'']"

definition perRuneSyntax :: syntax_Regexp where
  "perRuneSyntax = OpCapture 1 (OpRune AnyCharNotNL)"

definition perRunePlugin :: plugin where
  "perRunePlugin =
     examplePlugin\<lparr>plugin_config := exampleConfig\<lparr>Regexp := ''(.)'', Replacement := ''[$1]''\<rparr>,
                    plugin_regex := compileSyntax perRuneSyntax\<rparr>"

section \<open>Facts about the model\<close>

subsection \<open>Expansion appends\<close>

lemma expand_append:
  "expand U names dst template src match = dst @ expand U names [] template src match"
proof (induction "length template" arbitrary: template dst rule: less_induct)
  case less
  show ?case
  proof (cases "CHR ''$'' \<in> set template")
    case False
    then show ?thesis by (simp add: expand.simps [of _ _ _ template])
  next
    case True
    define before where "before = takeWhile (\<lambda>c. c \<noteq> CHR ''$'') template"
    define after where "after = tl (dropWhile (\<lambda>c. c \<noteq> CHR ''$'') template)"
    have shorter: "length after < length template"
      unfolding after_def using True by (rule after_dollar_shorter)
    have step: "expand U names d template src match =
        (if after \<noteq> [] \<and> hd after = CHR ''$''
         then expand U names ((d @ before) @ ''$'') (tl after) src match
         else (case regexp_extract U after of
                 None \<Rightarrow> expand U names ((d @ before) @ ''$'') after src match
               | Some (name, num, rest) \<Rightarrow>
                   expand U names ((d @ before) @ expandGroup names name num src match)
                     rest src match))" for d
      unfolding before_def after_def using True by (subst expand.simps) (simp add: Let_def)
    show ?thesis
    proof (cases "after \<noteq> [] \<and> hd after = CHR ''$''")
      case dollar: True
      have l: "length (tl after) < length template" using shorter by simp
      have s: "expand U names d template src match =
                 expand U names ((d @ before) @ ''$'') (tl after) src match" for d
        by (subst step) (rule if_P [OF dollar])
      show ?thesis
        using less [OF l, of "(dst @ before) @ ''$''"] less [OF l, of "([] @ before) @ ''$''"]
        by (simp add: s)
    next
      case nodollar: False
      show ?thesis
      proof (cases "regexp_extract U after")
        case None
        have s: "expand U names d template src match =
                   expand U names ((d @ before) @ ''$'') after src match" for d
          by (subst step, subst if_not_P [OF nodollar]) (simp add: None)
        show ?thesis
          using less [OF shorter, of "(dst @ before) @ ''$''"]
            less [OF shorter, of "([] @ before) @ ''$''"]
          by (simp add: s)
      next
        case (Some t)
        obtain name num rest where t: "t = (name, num, rest)" by (cases t) auto
        have l: "length rest < length template"
          using regexp_extract_rest [of U after name num rest] Some t shorter by simp
        have s: "expand U names d template src match =
                   expand U names ((d @ before) @ expandGroup names name num src match)
                     rest src match" for d
          by (subst step, subst if_not_P [OF nodollar]) (simp add: Some t)
        show ?thesis
          using less [OF l, of "(dst @ before) @ expandGroup names name num src match"]
            less [OF l, of "([] @ before) @ expandGroup names name num src match"]
          by (simp add: s)
      qed
    qed
  qed
qed

lemma foldl_ExpandString:
  "foldl (\<lambda>replacement match. ExpandString U re replacement template src match) acc ms =
     acc @ concat (map (ExpandString U re [] template src) ms)"
proof (induction ms arbitrary: acc)
  case Nil
  show ?case by simp
next
  case (Cons m ms)
  have "ExpandString U re acc template src m = acc @ ExpandString U re [] template src m"
    unfolding ExpandString_def by (rule expand_append)
  with Cons show ?case by simp
qed

lemma replacementOf_concat:
  "replacementOf U p src =
     concat (map (ExpandString U (plugin_regex p) [] (Replacement (plugin_config p)) src)
               (FindAllStringSubmatchIndex (plugin_regex p) src))"
  by (simp add: replacementOf_def foldl_ExpandString)

subsection \<open>Runes and line feeds\<close>

lemma byte_LF: "byte c = 10 \<longleftrightarrow> c = CHR 0x0A"
proof
  assume "byte c = 10"
  then have "of_char c = (of_char (CHR 0x0A) :: nat)" by (simp add: byte_def)
  then show "c = CHR 0x0A" by (simp only: of_char_eq_iff)
qed (simp add: byte_def)

lemma mod_window:
  fixes a m q :: nat
  assumes "q * m \<le> a" and "a < q * m + m"
  shows "a mod m = a - q * m"
proof -
  have "a = m * q + (a - q * m)" using assms(1) by (simp add: mult.commute)
  then have "a mod m = (m * q + (a - q * m)) mod m" by simp
  also have "\<dots> = (a - q * m) mod m" by (rule mod_mult_self4)
  also have "\<dots> = a - q * m" using assms by simp
  finally show ?thesis .
qed

lemma lead2: "194 \<le> (a::nat) \<Longrightarrow> a < 224 \<Longrightarrow> 2 \<le> a mod 32"
  using mod_window [of 6 32 a] by simp

lemma lead3: "225 \<le> (a::nat) \<Longrightarrow> a < 240 \<Longrightarrow> 1 \<le> a mod 16"
  using mod_window [of 14 16 a] by simp

lemma lead4: "241 \<le> (a::nat) \<Longrightarrow> a \<le> 244 \<Longrightarrow> 1 \<le> a mod 8"
  using mod_window [of 30 8 a] by simp

lemma cont3: "160 \<le> (b::nat) \<Longrightarrow> b \<le> 191 \<Longrightarrow> 32 \<le> b mod 64"
  using mod_window [of 2 64 b] by simp

lemma cont4: "144 \<le> (b::nat) \<Longrightarrow> b \<le> 191 \<Longrightarrow> 16 \<le> b mod 64"
  using mod_window [of 2 64 b] by simp

lemma DecodeRune_high:
  assumes "128 \<le> byte c"
  shows "128 \<le> fst (DecodeRuneInString (c # t))"
proof -
  let ?s0 = "byte c"
  consider (inv) "?s0 < 194 \<or> 244 < ?s0" | (two) "194 \<le> ?s0" "?s0 < 224"
    | (e0) "?s0 = 224" | (three) "225 \<le> ?s0" "?s0 < 240"
    | (f0) "?s0 = 240" | (four) "241 \<le> ?s0" "?s0 \<le> 244"
    by linarith
  then show ?thesis
  proof cases
    case inv
    with assms show ?thesis by (simp add: DecodeRuneInString_def RuneError_def Let_def)
  next
    case two
    with assms lead2 [OF two] show ?thesis
      by (simp add: DecodeRuneInString_def RuneError_def Let_def)
  next
    case e0
    with assms show ?thesis
      using cont3 [of "byte ((c # t) ! 1)"]
      by (auto simp: DecodeRuneInString_def RuneError_def Let_def not_less)
  next
    case three
    with assms lead3 [OF three] show ?thesis
      by (simp add: DecodeRuneInString_def RuneError_def Let_def)
  next
    case f0
    with assms show ?thesis
      using cont4 [of "byte ((c # t) ! 1)"]
      by (auto simp: DecodeRuneInString_def RuneError_def Let_def not_less)
  next
    case four
    with assms lead4 [OF four] show ?thesis
      by (simp add: DecodeRuneInString_def RuneError_def Let_def)
  qed
qed

lemma DecodeRune_LF:
  "fst (DecodeRuneInString t) = 10 \<Longrightarrow> t \<noteq> [] \<and> hd t = CHR 0x0A"
proof (cases t)
  case Nil
  assume "fst (DecodeRuneInString t) = 10"
  with Nil show ?thesis by (simp add: DecodeRuneInString_def RuneError_def)
next
  case (Cons c u)
  assume a: "fst (DecodeRuneInString t) = 10"
  show ?thesis
  proof (cases "byte c < 128")
    case True
    with a Cons show ?thesis by (simp add: DecodeRuneInString_def Let_def byte_LF)
  next
    case False
    then have "128 \<le> fst (DecodeRuneInString (c # u))" using DecodeRune_high [of c u] by simp
    with a Cons show ?thesis by simp
  qed
qed


subsection \<open>The default pattern matches a text without line feed once, any other never\<close>

lemma starEnds_nonempty: "starEnds cls s pos \<noteq> []"
  by (subst starEnds.simps) (simp split: option.splits)

lemma stepRune_no_LF:
  assumes "CHR 0x0A \<notin> set s" and "pos < length s"
  shows "\<exists>pos'. stepRune AnyCharNotNL s pos = Some pos'"
proof -
  from assms have "hd (drop pos s) \<noteq> CHR 0x0A"
    by (metis hd_drop_conv_nth nth_mem)
  then have "fst (DecodeRuneInString (drop pos s)) \<noteq> 10"
    using DecodeRune_LF [of "drop pos s"] by blast
  with assms(2) show ?thesis
    by (auto simp add: stepRune_def split: prod.splits)
qed

lemma starEnds_no_LF:
  "CHR 0x0A \<notin> set s \<Longrightarrow> pos \<le> length s \<Longrightarrow> cls = AnyCharNotNL \<Longrightarrow>
     hd (starEnds cls s pos) = length s"
proof (induction cls s pos rule: starEnds.induct)
  case (1 cls s pos)
  show ?case
  proof (cases "pos < length s")
    case False
    with "1.prems" have "stepRune cls s pos = None" by (simp add: stepRune_def)
    with False "1.prems" show ?thesis by (subst starEnds.simps) simp
  next
    case True
    with "1.prems" obtain pos' where st: "stepRune cls s pos = Some pos'"
      using stepRune_no_LF [of s pos] by blast
    then have "pos' \<le> length s" using stepRune_advances by blast
    with "1.IH" [OF st] "1.prems" have "hd (starEnds cls s pos') = length s" by simp
    with st starEnds_nonempty [of cls s pos'] show ?thesis
      by (subst starEnds.simps) simp
  qed
qed

lemma DecodeRune_cont:
  assumes "0 < i" and "i < snd (DecodeRuneInString t)"
  shows "128 \<le> byte (t ! i)"
proof (cases t)
  case Nil
  with assms show ?thesis by (simp add: DecodeRuneInString_def)
next
  case (Cons c u)
  from assms have "i = 1 \<or> i = 2 \<or> i = 3 \<or> 4 \<le> i" by linarith
  with assms Cons show ?thesis
    by (auto simp: DecodeRuneInString_def Let_def not_less split: if_splits)
qed


lemma stepRune_skips_no_LF:
  assumes "stepRune AnyCharNotNL s pos = Some pos'" and "pos \<le> i" and "i < pos'"
  shows "s ! i \<noteq> CHR 0x0A"
proof -
  let ?t = "drop pos s"
  from assms(1) have lt: "pos < length s"
    by (auto simp: stepRune_def split: if_splits)
  from assms(1) lt have r: "fst (DecodeRuneInString ?t) \<noteq> 10"
    and w: "pos' = pos + snd (DecodeRuneInString ?t)"
    by (auto simp: stepRune_def split: if_splits prod.splits)
  have le: "pos' \<le> length s" using assms(1) stepRune_advances by blast
  have nth: "?t ! (i - pos) = s ! i" using assms(2,3) le by simp
  show ?thesis
  proof (cases "i = pos")
    case True
    have "byte (hd ?t) \<noteq> 10"
    proof
      assume a: "byte (hd ?t) = 10"
      from lt obtain c u where cu: "?t = c # u" by (cases ?t) auto
      with a have "fst (DecodeRuneInString ?t) = 10"
        by (simp add: DecodeRuneInString_def Let_def)
      with r show False by simp
    qed
    moreover have "hd ?t = s ! i" using True lt by (simp add: hd_drop_conv_nth)
    ultimately show ?thesis by (simp add: byte_LF)
  next
    case False
    with assms(2,3) w have "0 < i - pos" "i - pos < snd (DecodeRuneInString ?t)" by simp_all
    from DecodeRune_cont [OF this] nth have "128 \<le> byte (s ! i)" by simp
    then show ?thesis by (auto simp: byte_def)
  qed
qed

lemma starEnds_skips_no_LF:
  "e \<in> set (starEnds cls s pos) \<Longrightarrow> cls = AnyCharNotNL \<Longrightarrow> pos \<le> i \<Longrightarrow> i < e \<Longrightarrow>
     s ! i \<noteq> CHR 0x0A"
proof (induction cls s pos rule: starEnds.induct)
  case (1 cls s pos)
  show ?case
  proof (cases "stepRune cls s pos")
    case None
    with "1.prems" show ?thesis by (subst (asm) starEnds.simps) simp
  next
    case (Some pos')
    with "1.prems"(1) have e: "e \<in> set (starEnds cls s pos') \<or> e = pos"
      by (subst (asm) starEnds.simps) auto
    show ?thesis
    proof (cases "i < pos'")
      case True
      with Some "1.prems" stepRune_skips_no_LF [of s pos pos' i] show ?thesis by simp
    next
      case False
      with e "1.prems" "1.IH" [OF Some] show ?thesis by auto
    qed
  qed
qed

lemma starEnds_LF:
  assumes "CHR 0x0A \<in> set s"
  shows "length s \<notin> set (starEnds AnyCharNotNL s 0)"
proof
  assume a: "length s \<in> set (starEnds AnyCharNotNL s 0)"
  from assms obtain i where "i < length s" "s ! i = CHR 0x0A"
    by (auto simp: in_set_conv_nth)
  with starEnds_skips_no_LF [OF a refl, of i] show False by simp
qed


lemma concat_map_if_singleton:
  "concat (map (\<lambda>x. if P x then [f x] else []) xs) = map f (filter P xs)"
  by (induction xs) auto

lemma paths_defaultSyntax:
  "paths defaultSyntax s (pos, cap) =
     (if pos = 0
      then map (\<lambda>e. (e, cap[2 := 0, 3 := int e]))
             (filter (\<lambda>e. e = length s) (starEnds AnyCharNotNL s 0))
      else [])"
proof -
  have "concat (map (paths OpEndText s)
           (map (\<lambda>(pos', cap'). (pos', cap'[3 := int pos']))
              (map (\<lambda>pos'. (pos', cap[2 := 0])) (starEnds AnyCharNotNL s 0)))) =
        concat (map (\<lambda>e. if e = length s then [(e, cap[2 := 0, 3 := int e])] else [])
           (starEnds AnyCharNotNL s 0))"
    by (simp add: comp_def)
  then show ?thesis
    by (simp add: defaultSyntax_def concat_map_if_singleton)
qed

lemma matchAt_defaultSyntax_0:
  "matchAt defaultSyntax s 0 =
     (if CHR 0x0A \<notin> set s then [0, int (length s), 0, int (length s)] else [])"
proof -
  have n: "numSubexp defaultSyntax = 1" by (simp add: defaultSyntax_def)
  have c0: "(replicate (2 * (numSubexp defaultSyntax + 1)) (- 1 :: int))[0 := int 0]
             = [0, - 1, - 1, - 1]"
    by (simp add: n numeral_eq_Suc)
  have m: "matchAt defaultSyntax s 0 =
             (case paths defaultSyntax s (0, [0, - 1, - 1, - 1]) of
                [] \<Rightarrow> []
              | (e, cap) # _ \<Rightarrow> cap[1 := int e])"
    unfolding matchAt_def c0 ..
  show ?thesis
  proof (cases "CHR 0x0A \<in> set s")
    case True
    from starEnds_LF [OF True]
    have "filter (\<lambda>e. e = length s) (starEnds AnyCharNotNL s 0) = []"
      by (auto simp: filter_empty_conv)
    with True show ?thesis
      by (simp add: m paths_defaultSyntax)
  next
    case False
    from starEnds_no_LF [OF False, of 0 AnyCharNotNL] starEnds_nonempty [of AnyCharNotNL s 0]
    obtain es where "starEnds AnyCharNotNL s 0 = length s # es"
      by (cases "starEnds AnyCharNotNL s 0") auto
    with False show ?thesis
      by (simp add: m paths_defaultSyntax)
  qed
qed

lemma matchAt_defaultSyntax:
  "matchAt defaultSyntax s pos =
     (if pos = 0 \<and> CHR 0x0A \<notin> set s
      then [0, int (length s), 0, int (length s)] else [])"
proof (cases "pos = 0")
  case False
  then show ?thesis by (simp add: matchAt_def paths_defaultSyntax)
next
  case True
  then show ?thesis by (simp add: matchAt_defaultSyntax_0)
qed

lemma backtrack_defaultSyntax_later:
  "0 < pos \<Longrightarrow> backtrack defaultSyntax s pos = []"
proof (induction defaultSyntax s pos rule: backtrack.induct)
  case (1 s pos)
  then show ?case
    by (subst backtrack.simps) (simp add: matchAt_defaultSyntax Let_def)
qed

lemma backtrack_defaultSyntax:
  "backtrack defaultSyntax s pos =
     (if pos = 0 \<and> CHR 0x0A \<notin> set s
      then [0, int (length s), 0, int (length s)] else [])"
proof (cases "pos = 0")
  case False
  then show ?thesis by (simp add: backtrack_defaultSyntax_later)
next
  case True
  show ?thesis
  proof (cases "CHR 0x0A \<in> set s")
    case False
    with True show ?thesis
      by (subst backtrack.simps) (simp add: matchAt_defaultSyntax)
  next
    case LF: True
    show ?thesis
    proof (cases s)
      case Nil
      with LF show ?thesis by simp
    next
      case (Cons c u)
      then have "0 < snd (DecodeRuneInString (drop 0 s))"
        using DecodeRuneInString_width [of s] by simp
      with True LF show ?thesis
        by (subst backtrack.simps)
           (simp add: matchAt_defaultSyntax Let_def backtrack_defaultSyntax_later)
    qed
  qed
qed

lemma doExecute_compileSyntax: "doExecute (compileSyntax re) s pos = backtrack re s pos"
  by (simp add: doExecute_def compileSyntax_def backtracker.rep_eq)

lemma doExecute_defaultSyntax:
  "doExecute (compileSyntax defaultSyntax) s pos =
     (if pos = 0 \<and> CHR 0x0A \<notin> set s
      then [0, int (length s), 0, int (length s)] else [])"
  by (simp add: doExecute_compileSyntax backtrack_defaultSyntax)

lemma allMatches_defaultSyntax:
  "allMatches (compileSyntax defaultSyntax) s (length s + 1) 0 0 (- 1) =
     (if CHR 0x0A \<in> set s then [] else [[0, int (length s), 0, int (length s)]])"
proof (cases "CHR 0x0A \<in> set s")
  case True
  then show ?thesis
    by (subst allMatches.simps) (simp add: doExecute_defaultSyntax)
next
  case False
  show ?thesis
  proof (cases "s = []")
    case True
    have "allMatches (compileSyntax defaultSyntax) [] (Suc 0) (Suc 0) (Suc 0) 0 = []"
      by (subst allMatches.simps) simp
    with True show ?thesis
      by (subst allMatches.simps)
         (simp add: doExecute_defaultSyntax Let_def DecodeRuneInString_def)
  next
    case ne: False
    have "allMatches (compileSyntax defaultSyntax) s (length s + 1) (length s) 1 (int (length s)) = []"
      using ne by (subst allMatches.simps) (simp add: doExecute_defaultSyntax)
    with False ne show ?thesis
      by (subst allMatches.simps) (simp add: doExecute_defaultSyntax Let_def)
  qed
qed

lemma FindAll_default:
  "FindAllStringSubmatchIndex (compileSyntax defaultSyntax) s =
     (if CHR 0x0A \<in> set s then [] else [[0, int (length s), 0, int (length s)]])"
  using allMatches_defaultSyntax [of s] by (simp add: FindAllStringSubmatchIndex_def)

subsection \<open>The exits of \<open>ServeHTTP\<close>\<close>

lemma Flush_header [simp]: "header (wrapped_w (Flush r)) = header (wrapped_w r)"
  by (simp add: Flush_def io_Copy_def sink_WriteHeader_def sink_Write_def Let_def)

lemma ServeHTTP_sink:
  "served_sink (ServeHTTP U p w req) = wrapped_w (Flush (snd (serveBody U p (wrap w) req)))"
  by (simp add: ServeHTTP_def Let_def split: prod.splits)

lemma ServeHTTP_outcome:
  "served_outcome (ServeHTTP U p w req) = fst (serveBody U p (wrap w) req)"
  by (simp add: ServeHTTP_def Let_def split: prod.splits)

lemma serveBody_panics:
  "snd (plugin_next p req) = Panics \<Longrightarrow>
     serveBody U p (wrap w) req = (Panicked, afterNext p w req)"
  by (cases "plugin_next p req") (simp add: serveBody_def afterNext_def Let_def)

lemma serveBody_skip_overwrite:
  "snd (plugin_next p req) = Returns \<Longrightarrow> \<not> Overwrite (plugin_config p) \<Longrightarrow>
   Header_Get (wrapped_Header (afterNext p w req)) (To (plugin_config p)) \<noteq> [] \<Longrightarrow>
     serveBody U p (wrap w) req = (Returned, afterNext p w req)"
  by (cases "plugin_next p req") (simp add: serveBody_def afterNext_def Let_def)

lemma serveBody_skip_source:
  "snd (plugin_next p req) = Returns \<Longrightarrow>
   Header_Get (req_Header req) (From (plugin_config p)) = [] \<Longrightarrow>
     serveBody U p (wrap w) req = (Returned, afterNext p w req)"
  by (cases "plugin_next p req") (simp add: serveBody_def afterNext_def Let_def)

lemma serveBody_empty_replacement:
  "snd (plugin_next p req) = Returns \<Longrightarrow>
   replacementOf U p (Header_Get (req_Header req) (From (plugin_config p))) = [] \<Longrightarrow>
     serveBody U p (wrap w) req = (Returned, afterNext p w req)"
  by (cases "plugin_next p req") (simp add: serveBody_def afterNext_def Let_def)

lemma serveBody_step5:
  "reachesStep5 U p w req \<Longrightarrow>
     serveBody U p (wrap w) req =
       (case Value (req_Context req) (AnyString ''tracing.traceID'') of
          Inl _ \<Rightarrow> (Panicked, afterNext p w req)
        | Inr v \<Rightarrow>
            (case assertString v of
               Some traceID \<Rightarrow>
                 (Returned,
                  withHeader (afterNext p w req)
                    (Header_Set (wrapped_Header (afterNext p w req)) (To (plugin_config p)) traceID))
             | None \<Rightarrow> (Returned, afterNext p w req)))"
  unfolding reachesStep5_def afterNext_def
  by (cases "plugin_next p req") (auto simp add: serveBody_def Let_def split: sum.splits option.splits)

subsection \<open>What the sink receives\<close>

lemma Flush_received:
  "received (wrapped_w (Flush r)) =
     received (wrapped_w r) @ SinkWriteHeader (wrapped_code r)
       # (if wrapped_buf r = [] then [] else [SinkWrite (wrapped_buf r)])"
  by (simp add: Flush_def io_Copy_def sink_WriteHeader_def sink_Write_def Let_def)

lemma calls_Cons: "calls r (c # cs) = calls (call r c) cs"
  by (simp add: calls_def)

lemma calls_Nil: "calls r [] = r"
  by (simp add: calls_def)

lemma calls_buffered:
  "list_all isBuffered cs \<Longrightarrow>
     calls r cs = r\<lparr>wrapped_buf := wrapped_buf r @ written cs,
                    wrapped_code := lastCode (wrapped_code r) cs\<rparr>"
proof (induction cs arbitrary: r)
  case Nil
  show ?case by (simp add: calls_Nil)
next
  case (Cons c cs)
  then show ?case
    by (cases c) (simp_all add: calls_Cons Write_def WriteHeader_def)
qed

lemma statusLines_Flush: "statusLines (wrapped_w (Flush r)) = statusLines (wrapped_w r) + 1"
  by (simp add: statusLines_def Flush_received)

lemma statusLines_call:
  "statusLines (wrapped_w (call r c)) =
     statusLines (wrapped_w r) + (if c = CallFlush then 1 else 0)"
proof (cases c)
  case CallFlush
  then show ?thesis by (simp add: statusLines_Flush)
qed (simp_all add: withHeader_def Write_def WriteHeader_def Hijack_def
       sink_Hijack_def statusLines_def split: option.splits)

lemma statusLines_calls:
  "statusLines (wrapped_w (calls r cs)) = statusLines (wrapped_w r) + flushCalls cs"
proof (induction cs arbitrary: r)
  case Nil
  show ?case by (simp add: calls_Nil flushCalls_def)
next
  case (Cons c cs)
  show ?case
    using Cons [of "call r c"] by (simp add: calls_Cons statusLines_call flushCalls_def)
qed

lemma serveBody_received:
  "received (wrapped_w (snd (serveBody U p (wrap w) req))) =
     received (wrapped_w (afterNext p w req))"
  unfolding afterNext_def
  by (cases "plugin_next p req")
     (simp add: serveBody_def Let_def withHeader_def split: sum.splits option.splits)

lemma ServeHTTP_statusLines:
  "statusLines (served_sink (ServeHTTP U p w req)) =
     statusLines w + flushCalls (fst (plugin_next p req)) + 1"
proof -
  have "statusLines (wrapped_w (snd (serveBody U p (wrap w) req))) =
          statusLines (wrapped_w (afterNext p w req))"
    by (simp add: statusLines_def serveBody_received)
  also have "\<dots> = statusLines w + flushCalls (fst (plugin_next p req))"
    by (simp add: afterNext_def statusLines_calls wrap_def)
  finally show ?thesis
    by (simp add: ServeHTTP_sink statusLines_Flush)
qed


lemma Header_Get_Set: "Header_Get (Header_Set h key val) key = val"
  by (simp add: Header_Get_def Header_Set_def)

lemma header_withHeader: "header (wrapped_w (withHeader r h)) = h"
  by (simp add: withHeader_def)

lemma ServeHTTP_no_rewrite:
  "serveBody U p (wrap w) req = (oc, afterNext p w req) \<Longrightarrow>
     served_outcome (ServeHTTP U p w req) = oc \<and>
     served_sink (ServeHTTP U p w req) = wrapped_w (Flush (afterNext p w req)) \<and>
     header (served_sink (ServeHTTP U p w req)) = wrapped_Header (afterNext p w req)"
  by (simp add: ServeHTTP_sink ServeHTTP_outcome wrapped_Header_def)

text \<open>The examples, evaluated.\<close>

lemma canonical_examples:
  "CanonicalMIMEHeaderKey ''X-Src'' = ''X-Src''"
  "CanonicalMIMEHeaderKey ''X-Trace'' = ''X-Trace''"
  by code_simp+

lemma example_FindAll:
  "FindAllStringSubmatchIndex (plugin_regex examplePlugin) s =
     (if CHR 0x0A \<in> set s then [] else [[0, int (length s), 0, int (length s)]])"
  by (simp add: examplePlugin_def FindAll_default)

lemma example_names: "subexpNames (plugin_regex examplePlugin) = [[], []]"
  by (simp add: examplePlugin_def compileSyntax_def defaultSyntax_def numeral_eq_Suc)

lemma example_config:
  "From (plugin_config examplePlugin) = ''X-Src''"
  "To (plugin_config examplePlugin) = ''X-Trace''"
  "Replacement (plugin_config examplePlugin) = ''$1''"
  "Overwrite (plugin_config examplePlugin) = False"
  by (simp_all add: examplePlugin_def exampleConfig_def CreateConfig_def)

lemma expand_dollar_1:
  "expand U [[], []] [] ''$1'' s [0, int (length s), 0, int (length s)] = s"
proof -
  have e: "regexp_extract U ''1'' = Some (''1'', 1, [])"
    by (simp add: regexp_extract_def nameLen.simps [of U "''1''"] nameLen.simps [of U "[]"]
          DecodeRuneInString_def isNameRune_def byte_def isDigitByte_def Let_def)
  have g: "expandGroup [[], []] ''1'' 1 s [0, int (length s), 0, int (length s)] = s"
    by (simp add: expandGroup_def groupText_def slice_def)
  show ?thesis
    by (subst expand.simps, simp add: e g, subst expand.simps, simp)
qed

lemma example_replacement:
  "replacementOf U examplePlugin s = (if CHR 0x0A \<in> set s then [] else s)"
  by (simp add: replacementOf_concat example_FindAll example_names example_config
        ExpandString_def expand_dollar_1)


lemma example_afterNext: "afterNext examplePlugin w req = (wrap w)\<lparr>wrapped_buf := ''ABC'', wrapped_code := 201\<rparr>"
  by (simp add: afterNext_def examplePlugin_def exampleNext_def calls_buffered wrap_def)

lemma example_source:
  "Header_Get [''X-Src'' \<mapsto> [v]] ''X-Src'' = v"
  by (simp add: Header_Get_def canonical_examples)

lemma example_next: "plugin_next examplePlugin req = exampleNext req"
  by (simp add: examplePlugin_def)

lemma plainSink_fields:
  "header plainSink = Map.empty"
  "received plainSink = []"
  "hijacker plainSink = None"
  "dynamic_type plainSink = ''*httptest.ResponseRecorder''"
  by (simp_all add: plainSink_def)

lemma example_reaches:
  "req_Header req = [''X-Src'' \<mapsto> [''foo'']] \<Longrightarrow> reachesStep5 U examplePlugin plainSink req"
  by (simp add: reachesStep5_def example_afterNext example_config example_source
        example_replacement wrapped_Header_def wrap_def plainSink_fields Header_Get_def
        example_next exampleNext_def canonical_examples)

lemma example_plugin_variants:
  "plugin_config flushingPlugin = plugin_config examplePlugin"
  "plugin_config panickingPlugin = plugin_config examplePlugin"
  "plugin_next flushingPlugin req = flushingNext req"
  "plugin_next panickingPlugin req = panickingNext req"
  by (simp_all add: flushingPlugin_def panickingPlugin_def)

subsection \<open>Matches are ordered and lie inside the text\<close>

lemma allMatches_bounds:
  "m \<in> set (allMatches re s n pos i prevMatchEnd) \<Longrightarrow>
     int pos \<le> m ! 0 \<and> m ! 0 \<le> m ! 1 \<and> m ! 1 \<le> int (length s)"
proof (induction re s n pos i prevMatchEnd rule: allMatches.induct)
  case (1 re s n pos i prevMatchEnd)
  let ?ms = "doExecute re s pos"
  let ?w = "snd (DecodeRuneInString (drop pos s))"
  let ?pos' = "if 0 < ?w then pos + ?w else length s + 1"
  let ?acc = "?ms ! 0 \<noteq> prevMatchEnd"
  from "1.prems" have c: "i < n \<and> pos \<le> length s" and ne: "?ms \<noteq> []"
    by (subst (asm) allMatches.simps, auto simp: Let_def split: if_splits)+
  have b: "int pos \<le> ?ms ! 0 \<and> ?ms ! 0 \<le> ?ms ! 1 \<and> ?ms ! 1 \<le> int (length s)"
      using doExecute_matchFrom [of re s pos] ne by (simp add: matchFrom_def)
  show ?case
  proof (cases "?ms ! 1 = int pos")
    case True
    with "1.prems" c ne have "m = ?ms \<or>
        m \<in> set (allMatches re s n ?pos' (if ?acc then i + 1 else i) (?ms ! 1))"
      by (subst (asm) allMatches.simps) (auto simp: Let_def split: if_splits)
    then show ?thesis
    proof
      assume "m = ?ms" with b show ?thesis by simp
    next
      assume a: "m \<in> set (allMatches re s n ?pos' (if ?acc then i + 1 else i) (?ms ! 1))"
      from "1.IH"(1) [OF c refl ne True refl refl refl a] c
      show ?thesis by (auto split: if_splits)
    qed
  next
    case False
    with "1.prems" c ne have "m = ?ms \<or>
        m \<in> set (allMatches re s n (nat (?ms ! 1)) (i + 1) (?ms ! 1))"
      by (subst (asm) allMatches.simps) (auto simp: Let_def split: if_splits)
    then show ?thesis
    proof
      assume "m = ?ms" with b show ?thesis by simp
    next
      assume a: "m \<in> set (allMatches re s n (nat (?ms ! 1)) (i + 1) (?ms ! 1))"
      from "1.IH"(2) [OF c refl ne False a] b
      show ?thesis by auto
    qed
  qed
qed


lemma allMatches_leftToRight:
  "leftToRight (allMatches re s n pos i prevMatchEnd)"
proof (induction re s n pos i prevMatchEnd rule: allMatches.induct)
  case (1 re s n pos i prevMatchEnd)
  let ?ms = "doExecute re s pos"
  let ?w = "snd (DecodeRuneInString (drop pos s))"
  let ?pos' = "if 0 < ?w then pos + ?w else length s + 1"
  let ?acc = "?ms ! 0 \<noteq> prevMatchEnd"
  show ?case
  proof (cases "i < n \<and> pos \<le> length s \<and> ?ms \<noteq> []")
    case False
    then show ?thesis
      by (subst allMatches.simps) (auto simp: Let_def leftToRight_def)
  next
    case True
    then have c: "i < n \<and> pos \<le> length s" and ne: "?ms \<noteq> []" by simp_all
    have b: "int pos \<le> ?ms ! 0 \<and> ?ms ! 0 \<le> ?ms ! 1 \<and> ?ms ! 1 \<le> int (length s)"
      using doExecute_matchFrom [of re s pos] ne by (simp add: matchFrom_def)
    show ?thesis
    proof (cases "?ms ! 1 = int pos")
      case empty: True
      let ?rest = "allMatches re s n ?pos' (if ?acc then i + 1 else i) (?ms ! 1)"
      have eq: "allMatches re s n pos i prevMatchEnd = (if ?acc then [?ms] else []) @ ?rest"
        using c ne empty by (subst allMatches.simps) (simp add: Let_def)
      have rest: "leftToRight ?rest"
        using "1.IH"(1) [OF c refl ne empty refl refl refl] .
      have "?ms ! 1 \<le> m ! 0" if "m \<in> set ?rest" for m
        using allMatches_bounds [OF that] empty c by (auto split: if_splits)
      with rest show ?thesis
        unfolding eq leftToRight_def by (simp add: sorted_wrt_append)
    next
      case nonempty: False
      let ?rest = "allMatches re s n (nat (?ms ! 1)) (i + 1) (?ms ! 1)"
      have eq: "allMatches re s n pos i prevMatchEnd = ?ms # ?rest"
        using c ne nonempty by (subst allMatches.simps) (simp add: Let_def)
      have rest: "leftToRight ?rest"
        using "1.IH"(2) [OF c refl ne nonempty] .
      have "?ms ! 1 \<le> m ! 0" if "m \<in> set ?rest" for m
        using allMatches_bounds [OF that] b by auto
      with rest show ?thesis
        unfolding eq leftToRight_def by simp
    qed
  qed
qed

lemma FindAll_ordered:
  "leftToRight (FindAllStringSubmatchIndex re s) \<and>
   list_all (withinText s) (FindAllStringSubmatchIndex re s)"
proof -
  have "withinText s m" if "m \<in> set (allMatches re s (length s + 1) 0 0 (- 1))" for m
    using allMatches_bounds [OF that] by (simp add: withinText_def)
  then show ?thesis
    by (simp add: FindAllStringSubmatchIndex_def allMatches_leftToRight list_all_iff)
qed

lemma serveBody_adapter:
  "snd (serveBody U p (wrap w) req) = afterNext p w req \<or>
   (\<exists>h. snd (serveBody U p (wrap w) req) = withHeader (afterNext p w req) h)"
  unfolding afterNext_def
  by (cases "plugin_next p req")
     (auto simp add: serveBody_def Let_def split: sum.splits option.splits)

lemma ServeHTTP_received:
  "received (served_sink (ServeHTTP U p w req)) =
     received (wrapped_w (afterNext p w req)) @ SinkWriteHeader (wrapped_code (afterNext p w req))
       # (if wrapped_buf (afterNext p w req) = [] then []
          else [SinkWrite (wrapped_buf (afterNext p w req))])"
  using serveBody_adapter [of U p w req]
  by (auto simp add: ServeHTTP_sink Flush_received withHeader_def)

lemma flushing_afterNext:
  "afterNext flushingPlugin plainSink req =
     \<lparr>wrapped_w = plainSink\<lparr>received := [SinkWriteHeader 200, SinkWrite ''A'']\<rparr>,
      wrapped_buf = ''B'', wrapped_code = 200\<rparr>"
  by (simp add: afterNext_def example_plugin_variants flushingNext_def calls_Cons calls_Nil
        Write_def Flush_def io_Copy_def sink_WriteHeader_def sink_Write_def wrap_def
        plainSink_fields Let_def)

lemma panicking_afterNext:
  "afterNext panickingPlugin plainSink req = (wrap plainSink)\<lparr>wrapped_buf := ''A''\<rparr>"
  by (simp add: afterNext_def example_plugin_variants panickingNext_def calls_Cons calls_Nil
        Write_def wrap_def)

subsection \<open>The matches found are all the matches\<close>

lemma doExecute_beyond: "length s < pos \<Longrightarrow> doExecute re s pos = []"
  using doExecute_matchFrom [of re s pos] by (auto simp: matchFrom_def)

lemma doExecute_indices:
  "doExecute re s pos \<noteq> [] \<Longrightarrow>
     int pos \<le> doExecute re s pos ! 0 \<and> doExecute re s pos ! 0 \<le> doExecute re s pos ! 1 \<and>
     doExecute re s pos ! 1 \<le> int (length s)"
  using doExecute_matchFrom [of re s pos] by (auto simp: matchFrom_def)

lemma width_0: "snd (DecodeRuneInString (drop pos s)) = 0 \<longleftrightarrow> length s \<le> pos"
proof (cases "drop pos s = []")
  case True
  then show ?thesis by (simp add: DecodeRuneInString_def)
next
  case False
  with DecodeRuneInString_width [OF False] show ?thesis by simp
qed

lemma nextMatch_not_abutting:
  assumes "prev < int pos"
  shows "nextMatch re s pos prev = doExecute re s pos"
proof (cases "doExecute re s pos = []")
  case True
  then show ?thesis by (simp add: nextMatch_def)
next
  case False
  with doExecute_indices [OF False] assms have "doExecute re s pos ! 0 \<noteq> prev" by simp
  with False show ?thesis by (simp add: nextMatch_def)
qed

lemma nextMatch_start: "nextMatch re s 0 (- 1) = nextAfter re s None"
  by (simp add: nextMatch_not_abutting)

lemma nextMatch_at_end: "nextMatch re s q (int q) = nextAfter re s (Some q)"
  by (auto simp: nextMatch_def Let_def)

text \<open>After an empty match at \<open>pos\<close> the loop goes on one rune later.\<close>

lemma nextMatch_after_empty:
  assumes "doExecute re s pos \<noteq> []" and "doExecute re s pos ! 1 = int pos"
  shows "nextMatch re s (if 0 < snd (DecodeRuneInString (drop pos s))
                         then pos + snd (DecodeRuneInString (drop pos s)) else length s + 1)
           (int pos) = nextMatch re s pos (int pos)"
proof -
  let ?w = "snd (DecodeRuneInString (drop pos s))"
  from assms doExecute_indices [OF assms(1)] have m0: "doExecute re s pos ! 0 = int pos" by simp
  have r: "nextMatch re s pos (int pos) = (if ?w = 0 then [] else doExecute re s (pos + ?w))"
    using assms m0 by (simp add: nextMatch_def Let_def)
  show ?thesis
  proof (cases "?w = 0")
    case True
    have "nextMatch re s (length s + 1) (int pos) = []"
      by (simp add: nextMatch_def doExecute_beyond)
    with True r show ?thesis by simp
  next
    case False
    then have "nextMatch re s (pos + ?w) (int pos) = doExecute re s (pos + ?w)"
      by (intro nextMatch_not_abutting) simp
    with False r show ?thesis by simp
  qed
qed

lemma allMatches_successive:
  "n = length s + 1 \<Longrightarrow> prev \<le> int pos \<Longrightarrow> int i \<le> prev + 1 \<Longrightarrow>
   nextMatch re s pos prev = nextAfter re s pe \<Longrightarrow>
     successive re s pe (allMatches re s n pos i prev)"
proof (induction re s n pos i prev arbitrary: pe rule: allMatches.induct)
  case (1 re s n pos i prev)
  let ?ms = "doExecute re s pos"
  let ?w = "snd (DecodeRuneInString (drop pos s))"
  let ?pos' = "if 0 < ?w then pos + ?w else length s + 1"
  let ?acc = "?ms ! 0 \<noteq> prev"
  note n = "1.prems"(1) and inv1 = "1.prems"(2) and inv2 = "1.prems"(3) and rel = "1.prems"(4)
  show ?case
  proof (cases "i < n \<and> pos \<le> length s")
    case False
    have L: "allMatches re s n pos i prev = []"
      by (subst allMatches.simps) (rule if_not_P [OF False])
    have "nextMatch re s pos prev = []"
    proof (cases "pos \<le> length s")
      case False
      then show ?thesis by (simp add: nextMatch_def doExecute_beyond)
    next
      case True
      with False n inv1 inv2 have p: "pos = length s" "prev = int pos" by simp_all
      have w: "?w = 0" using p width_0 [of pos s] by simp
      show ?thesis
      proof (cases "?ms = []")
        case True
        then show ?thesis by (simp add: nextMatch_def)
      next
        case False
        with doExecute_indices [OF False] p have "?ms ! 1 = int pos \<and> ?ms ! 0 = prev" by simp
        with False w show ?thesis by (simp add: nextMatch_def)
      qed
    qed
    with rel L show ?thesis by simp
  next
    case c: True
    show ?thesis
    proof (cases "?ms = []")
      case True
      then have L: "allMatches re s n pos i prev = []"
        using c by (subst allMatches.simps) simp
      from True have "nextMatch re s pos prev = []" by (simp add: nextMatch_def)
      with rel L show ?thesis by simp
    next
      case ne: False
      note b = doExecute_indices [OF ne]
      show ?thesis
      proof (cases "?ms ! 1 = int pos")
        case empty: True
        with b have m0: "?ms ! 0 = int pos" by simp
        let ?rest = "allMatches re s n ?pos' (if ?acc then i + 1 else i) (?ms ! 1)"
        have L: "allMatches re s n pos i prev = (if ?acc then [?ms] else []) @ ?rest"
          using c ne empty by (subst allMatches.simps) (simp add: Let_def)
        have bridge: "nextMatch re s ?pos' (?ms ! 1) = nextMatch re s pos (int pos)"
          using nextMatch_after_empty [OF ne empty] empty by simp
        have inv1': "?ms ! 1 \<le> int ?pos'" using empty c by simp
        show ?thesis
        proof (cases ?acc)
          case False
          then have pr: "prev = int pos" using m0 by simp
          have inv2': "int (if ?acc then i + 1 else i) \<le> ?ms ! 1 + 1"
            using False inv2 empty pr by simp
          have "nextMatch re s ?pos' (?ms ! 1) = nextAfter re s pe"
            using bridge rel pr by simp
          from "1.IH"(1) [OF c refl ne empty refl refl refl n inv1' inv2' this] False L
          show ?thesis by simp
        next
          case True
          then have lt: "prev < int pos" using m0 inv1 by simp
          have inv2': "int (if ?acc then i + 1 else i) \<le> ?ms ! 1 + 1"
            using True inv2 empty lt by simp
          have first: "nextAfter re s pe = ?ms"
            using rel nextMatch_not_abutting [OF lt, of re s] by simp
          have "nextMatch re s ?pos' (?ms ! 1) = nextAfter re s (Some (nat (?ms ! 1)))"
            using bridge empty by (simp add: nextMatch_at_end)
          from "1.IH"(1) [OF c refl ne empty refl refl refl n inv1' inv2' this] True L first ne
          show ?thesis by simp
        qed
      next
        case nonempty: False
        let ?rest = "allMatches re s n (nat (?ms ! 1)) (i + 1) (?ms ! 1)"
        have L: "allMatches re s n pos i prev = ?ms # ?rest"
          using c ne nonempty by (subst allMatches.simps) (simp add: Let_def)
        have first: "nextAfter re s pe = ?ms"
          using rel ne nonempty by (simp add: nextMatch_def Let_def)
        have inv1': "?ms ! 1 \<le> int (nat (?ms ! 1))" by simp
        have inv2': "int (i + 1) \<le> ?ms ! 1 + 1"
          using inv1 inv2 b nonempty by simp
        have "nextMatch re s (nat (?ms ! 1)) (?ms ! 1) = nextAfter re s (Some (nat (?ms ! 1)))"
          using nextMatch_at_end [of re s "nat (?ms ! 1)"] b by simp
        from "1.IH"(2) [OF c refl ne nonempty n inv1' inv2' this] L first ne
        show ?thesis by simp
      qed
    qed
  qed
qed

lemma FindAll_allNonOverlapping:
  "allNonOverlapping re s (FindAllStringSubmatchIndex re s)"
  unfolding allNonOverlapping_def FindAllStringSubmatchIndex_def
  by (rule allMatches_successive) (simp_all add: nextMatch_start)

subsection \<open>The pattern that matches rune by rune\<close>

lemma stepRune_ascii:
  assumes "pos < length s" and "byte (s ! pos) < 128" and "s ! pos \<noteq> CHR 0x0A"
  shows "stepRune AnyCharNotNL s pos = Some (pos + 1)"
proof -
  have d: "drop pos s = s ! pos # drop (Suc pos) s"
    using assms(1) by (simp add: Cons_nth_drop_Suc)
  have "DecodeRuneInString (drop pos s) = (byte (s ! pos), 1)"
    unfolding d using assms(2) by (simp add: DecodeRuneInString_def)
  moreover have "byte (s ! pos) \<noteq> 10" using assms(3) by (simp add: byte_LF)
  ultimately show ?thesis using assms(1) by (simp add: stepRune_def)
qed

lemma perRune_backtrack:
  assumes "\<forall>c \<in> set s. byte c < 128 \<and> c \<noteq> CHR 0x0A"
  shows "backtrack perRuneSyntax s pos =
           (if pos < length s then [int pos, int pos + 1, int pos, int pos + 1] else [])"
proof (cases "pos < length s")
  case True
  with assms have "stepRune AnyCharNotNL s pos = Some (pos + 1)"
    by (intro stepRune_ascii) simp_all
  then have "matchAt perRuneSyntax s pos = [int pos, int pos + 1, int pos, int pos + 1]"
    by (simp add: matchAt_def perRuneSyntax_def numeral_eq_Suc)
  with True show ?thesis by (subst backtrack.simps) simp
next
  case False
  then have "stepRune AnyCharNotNL s pos = None" by (simp add: stepRune_def)
  then have m: "matchAt perRuneSyntax s pos = []"
    by (simp add: matchAt_def perRuneSyntax_def)
  show ?thesis
  proof (cases "length s < pos")
    case True
    then show ?thesis by (subst backtrack.simps) simp
  next
    case eq: False
    with False have "drop pos s = []" by simp
    then have "snd (DecodeRuneInString (drop pos s)) = 0"
      by (simp add: DecodeRuneInString_def)
    with False m show ?thesis by (subst backtrack.simps) simp
  qed
qed

lemma foo_ascii: "\<forall>c \<in> set ''foo''. byte c < 128 \<and> c \<noteq> CHR 0x0A"
  by (simp add: byte_def)

lemma perRune_doExecute:
  "doExecute (plugin_regex perRunePlugin) ''foo'' pos =
     (if pos < 3 then [int pos, int pos + 1, int pos, int pos + 1] else [])"
  using perRune_backtrack [OF foo_ascii, of pos]
  by (simp add: perRunePlugin_def doExecute_compileSyntax)

lemma perRune_FindAll:
  "FindAllStringSubmatchIndex (plugin_regex perRunePlugin) ''foo'' =
     [[0, 1, 0, 1], [1, 2, 1, 2], [2, 3, 2, 3]]"
proof -
  let ?re = "plugin_regex perRunePlugin"
  have 3: "allMatches ?re ''foo'' 4 3 i 3 = []" for i
    by (subst allMatches.simps) (simp add: perRune_doExecute)
  have 2: "allMatches ?re ''foo'' 4 2 i 2 = [[2, 3, 2, 3]]" if "i < 4" for i
    using that by (subst allMatches.simps) (simp add: perRune_doExecute 3)
  have 1: "allMatches ?re ''foo'' 4 1 i 1 = [[1, 2, 1, 2], [2, 3, 2, 3]]" if "i < 3" for i
    using that by (subst allMatches.simps) (simp add: perRune_doExecute 2)
  have 0: "allMatches ?re ''foo'' 4 0 0 (- 1) = [[0, 1, 0, 1], [1, 2, 1, 2], [2, 3, 2, 3]]"
    using 1 [of 1] by (subst allMatches.simps) (simp add: perRune_doExecute)
  have len: "length ''foo'' + 1 = 4" by simp
  show ?thesis unfolding FindAllStringSubmatchIndex_def len by (rule 0)
qed

lemma perRune_names: "subexpNames (plugin_regex perRunePlugin) = [[], []]"
  by (simp add: perRunePlugin_def compileSyntax_def perRuneSyntax_def numeral_eq_Suc)

lemma perRune_template: "Replacement (plugin_config perRunePlugin) = ''[$1]''"
  by (simp add: perRunePlugin_def)


lemma perRune_expand:
  "expand asciiOnly [[], []] [] ''[$1]'' ''foo'' [0, 1, 0, 1] = ''[f]''"
  "expand asciiOnly [[], []] [] ''[$1]'' ''foo'' [1, 2, 1, 2] = ''[o]''"
  "expand asciiOnly [[], []] [] ''[$1]'' ''foo'' [2, 3, 2, 3] = ''[o]''"
  by code_simp+


section \<open>Properties of the plugin\<close>

text \<open>
  C1. When the rewrite reaches its last step with a non-empty result, the value of the
  request context under the fixed key decides: a string there becomes the value of the
  destination header (whatever the expansion was), and with no value there the headers
  stay as the downstream handler left them.
\<close>

theorem trace_value_becomes_destination_header:
  assumes "reachesStep5 U p w req"
  shows
    "(Value (req_Context req) traceKey = Inr (AnyString traceID) \<longrightarrow>
        served_outcome (ServeHTTP U p w req) = Returned \<and>
        header (served_sink (ServeHTTP U p w req)) =
          Header_Set (wrapped_Header (afterNext p w req)) (To (plugin_config p)) traceID \<and>
        Header_Get (header (served_sink (ServeHTTP U p w req))) (To (plugin_config p)) = traceID) \<and>
     (Value (req_Context req) traceKey = Inr AnyNil \<longrightarrow>
        served_outcome (ServeHTTP U p w req) = Returned \<and>
        header (served_sink (ServeHTTP U p w req)) = wrapped_Header (afterNext p w req))"
  using serveBody_step5 [OF assms]
  by (simp add: traceKey_def ServeHTTP_sink ServeHTTP_outcome header_withHeader
        Header_Get_Set wrapped_Header_def)

theorem trace_value_becomes_destination_header_witness:
  "reachesStep5 asciiOnly examplePlugin plainSink exampleRequest \<and>
   Value (req_Context exampleRequest) traceKey = Inr (AnyString ''abc-123'') \<and>
   Header_Get (header (served_sink (ServeHTTP asciiOnly examplePlugin plainSink exampleRequest)))
     ''X-Trace'' = ''abc-123'' \<and>
   reachesStep5 asciiOnly examplePlugin plainSink untracedRequest \<and>
   Value (req_Context untracedRequest) traceKey = Inr AnyNil \<and>
   header (served_sink (ServeHTTP asciiOnly examplePlugin plainSink untracedRequest)) = Map.empty"
proof -
  have r1: "reachesStep5 asciiOnly examplePlugin plainSink exampleRequest"
    by (rule example_reaches) (simp add: exampleRequest_def)
  have r2: "reachesStep5 asciiOnly examplePlugin plainSink untracedRequest"
    by (rule example_reaches) (simp add: untracedRequest_def exampleRequest_def)
  have v1: "Value (req_Context exampleRequest) traceKey = Inr (AnyString ''abc-123'')"
    by (simp add: exampleRequest_def)
  have v2: "Value (req_Context untracedRequest) traceKey = Inr AnyNil"
    by (simp add: untracedRequest_def)
  from trace_value_becomes_destination_header [OF r1, of "''abc-123''"]
       trace_value_becomes_destination_header [OF r2, of "''abc-123''"]
       r1 r2 v1 v2
  show ?thesis
    by (simp add: example_config example_afterNext wrapped_Header_def wrap_def plainSink_fields
          Header_Get_Set)
qed

text \<open>
  C2. \<open>Write\<close> appends to the buffer, returns the length and leaves the real sink alone;
  after any sequence of body writes and status settings the sink is untouched, and
  \<open>Flush\<close> then sends the recorded status code followed by one write of the whole
  accumulated body (no write when the body is empty).
\<close>

theorem write_buffers_and_flush_sends_status_then_body:
  "fst (Write r b) = (length b, None) \<and>
   snd (Write r b) = r\<lparr>wrapped_buf := wrapped_buf r @ b\<rparr> \<and>
   wrapped_w (snd (Write r b)) = wrapped_w r \<and>
   received (wrapped_w (Flush r)) =
     received (wrapped_w r) @ SinkWriteHeader (wrapped_code r)
       # (if wrapped_buf r = [] then [] else [SinkWrite (wrapped_buf r)]) \<and>
   (list_all isBuffered cs \<longrightarrow>
      wrapped_w (calls r cs) = wrapped_w r \<and>
      wrapped_buf (calls r cs) = wrapped_buf r @ written cs \<and>
      received (wrapped_w (Flush (calls r cs))) =
        received (wrapped_w r) @ SinkWriteHeader (lastCode (wrapped_code r) cs)
          # (if wrapped_buf r @ written cs = [] then []
             else [SinkWrite (wrapped_buf r @ written cs)]))"
  by (simp add: Write_def Flush_received calls_buffered)

theorem write_buffers_and_flush_sends_status_then_body_witness:
  "list_all isBuffered [CallWrite ''A'', CallWrite ''B'', CallWrite ''C'', CallWriteHeader 201] \<and>
   wrapped_w (calls (wrap plainSink)
      [CallWrite ''A'', CallWrite ''B'', CallWrite ''C'', CallWriteHeader 201]) = plainSink \<and>
   received (wrapped_w (Flush (calls (wrap plainSink)
      [CallWrite ''A'', CallWrite ''B'', CallWrite ''C'', CallWriteHeader 201]))) =
     [SinkWriteHeader 201, SinkWrite ''ABC'']"
  using write_buffers_and_flush_sends_status_then_body
    [of "wrap plainSink" "''A''"
        "[CallWrite ''A'', CallWrite ''B'', CallWrite ''C'', CallWriteHeader 201]"]
  by (simp add: wrap_def plainSink_fields)

text \<open>
  C8. \<open>Hijack\<close> on the adapter returns exactly what the real sink's own \<open>Hijack\<close>
  returns when the sink is an \<open>http.Hijacker\<close> (the connection and the buffered
  reader and writer, when the sink hands them out); otherwise it returns no connection
  and an error whose message starts with the name of the sink's dynamic type, and
  nothing changes.
\<close>

theorem Hijack_delegates_or_names_the_sink_type:
  "(hijacker (wrapped_w r) = Some res \<longrightarrow>
      fst (Hijack r) = res \<and>
      snd (Hijack r) = r\<lparr>wrapped_w := sink_Hijack (wrapped_w r)\<rparr>) \<and>
   (hijacker (wrapped_w r) = None \<longrightarrow>
      fst (Hijack r) =
        (None, None, Some (Error (dynamic_type (wrapped_w r) @ '' is not an http.Hijacker''))) \<and>
      snd (Hijack r) = r)"
  by (simp add: Hijack_def)

theorem Hijack_delegates_or_names_the_sink_type_witness:
  "hijacker (wrapped_w (wrap hijackableSink)) = Some (Some (Conn 1), Some (ReadWriter 1), None) \<and>
   fst (Hijack (wrap hijackableSink)) = (Some (Conn 1), Some (ReadWriter 1), None) \<and>
   received (wrapped_w (snd (Hijack (wrap hijackableSink)))) = [SinkHijack] \<and>
   hijacker (wrapped_w (wrap plainSink)) = None \<and>
   fst (Hijack (wrap plainSink)) =
     (None, None, Some (Error ''*httptest.ResponseRecorder is not an http.Hijacker'')) \<and>
   snd (Hijack (wrap plainSink)) = wrap plainSink"
  using Hijack_delegates_or_names_the_sink_type
          [of "wrap hijackableSink" "(Some (Conn 1), Some (ReadWriter 1), None)"]
        Hijack_delegates_or_names_the_sink_type [of "wrap plainSink" "(None, None, None)"]
  by (simp add: wrap_def hijackableSink_def plainSink_def sink_Hijack_def)

text \<open>
  C4. \<open>New\<close> returns an error and no handler when the source name is empty, when the
  destination name is empty, or when the pattern does not compile (the message then
  carries the compiler's); in every other case it returns the handler made of the name,
  the next handler, the configuration and the compiled pattern.
\<close>

theorem New_fails_on_bad_configuration_only:
  "(From config = [] \<longrightarrow>
      New Compile nextHandler config name = Inl (Error ''from cannot be empty'')) \<and>
   (From config \<noteq> [] \<and> To config = [] \<longrightarrow>
      New Compile nextHandler config name = Inl (Error ''to cannot be empty'')) \<and>
   (From config \<noteq> [] \<and> To config \<noteq> [] \<and> Compile (Regexp config) = Inl (Error err) \<longrightarrow>
      New Compile nextHandler config name = Inl (Error (''failed to compile regexp: '' @ err))) \<and>
   (From config \<noteq> [] \<and> To config \<noteq> [] \<and> Compile (Regexp config) = Inr regex \<longrightarrow>
      New Compile nextHandler config name =
        Inr \<lparr>plugin_name = name, plugin_next = nextHandler, plugin_config = config,
             plugin_regex = regex\<rparr>) \<and>
   (isl (New Compile nextHandler config name) \<longleftrightarrow>
      From config = [] \<or> To config = [] \<or> isl (Compile (Regexp config)))"
  by (cases "Compile (Regexp config)") (auto simp: New_def split: error.splits)

theorem New_fails_on_bad_configuration_only_witness:
  "New compileDefaultOnly exampleNext (exampleConfig\<lparr>From := []\<rparr>) ''trace'' =
     Inl (Error ''from cannot be empty'') \<and>
   New compileDefaultOnly exampleNext (exampleConfig\<lparr>To := []\<rparr>) ''trace'' =
     Inl (Error ''to cannot be empty'') \<and>
   New compileDefaultOnly exampleNext (exampleConfig\<lparr>Regexp := ''(''\<rparr>) ''trace'' =
     Inl (Error ''failed to compile regexp: error parsing regexp'') \<and>
   New compileDefaultOnly exampleNext exampleConfig ''trace'' = Inr examplePlugin"
  using New_fails_on_bad_configuration_only
          [where config = "exampleConfig\<lparr>From := []\<rparr>" and Compile = compileDefaultOnly
             and nextHandler = exampleNext and name = "''trace''"]
        New_fails_on_bad_configuration_only
          [where config = "exampleConfig\<lparr>To := []\<rparr>" and Compile = compileDefaultOnly
             and nextHandler = exampleNext and name = "''trace''"]
        New_fails_on_bad_configuration_only
          [where config = "exampleConfig\<lparr>Regexp := ''(''\<rparr>" and Compile = compileDefaultOnly
             and nextHandler = exampleNext and name = "''trace''" and err = "''error parsing regexp''"]
        New_fails_on_bad_configuration_only
          [where config = exampleConfig and Compile = compileDefaultOnly
             and nextHandler = exampleNext and name = "''trace''"
             and regex = "compileSyntax defaultSyntax"]
  by (simp add: exampleConfig_def CreateConfig_def compileDefaultOnly_def examplePlugin_def)


text \<open>
  C5. With \<open>overwrite\<close> off, when the destination header has a non-empty value at the
  moment the downstream handler returns, the rewrite does nothing: the function returns,
  the sink is what flushing the adapter right then gives, and the header map is the one
  the downstream handler left.
\<close>

theorem no_overwrite_keeps_destination_header:
  assumes "\<not> Overwrite (plugin_config p)"
    and "snd (plugin_next p req) = Returns"
    and "Header_Get (wrapped_Header (afterNext p w req)) (To (plugin_config p)) \<noteq> []"
  shows "served_outcome (ServeHTTP U p w req) = Returned \<and>
         served_sink (ServeHTTP U p w req) = wrapped_w (Flush (afterNext p w req)) \<and>
         header (served_sink (ServeHTTP U p w req)) = wrapped_Header (afterNext p w req) \<and>
         Header_Get (header (served_sink (ServeHTTP U p w req))) (To (plugin_config p)) =
           Header_Get (wrapped_Header (afterNext p w req)) (To (plugin_config p))"
  using ServeHTTP_no_rewrite
          [OF serveBody_skip_overwrite [OF assms(2) assms(1) assms(3), where U = U]]
  by (simp add: wrapped_Header_def)

theorem no_overwrite_keeps_destination_header_witness:
  "\<not> Overwrite (plugin_config examplePlugin) \<and>
   snd (plugin_next examplePlugin exampleRequest) = Returns \<and>
   Header_Get (wrapped_Header (afterNext examplePlugin presetSink exampleRequest)) ''X-Trace''
     = ''keep'' \<and>
   Value (req_Context exampleRequest) traceKey = Inr (AnyString ''abc-123'') \<and>
   header (served_sink (ServeHTTP asciiOnly examplePlugin presetSink exampleRequest)) =
     header presetSink \<and>
   Header_Get (header (served_sink (ServeHTTP asciiOnly examplePlugin presetSink exampleRequest)))
     ''X-Trace'' = ''keep''"
proof -
  have h: "wrapped_Header (afterNext examplePlugin presetSink exampleRequest) = header presetSink"
    by (simp add: example_afterNext wrapped_Header_def wrap_def)
  have g: "Header_Get (header presetSink) ''X-Trace'' = ''keep''"
    by (simp add: presetSink_def Header_Get_def canonical_examples)
  have 1: "\<not> Overwrite (plugin_config examplePlugin)" by (simp add: example_config)
  have 2: "snd (plugin_next examplePlugin exampleRequest) = Returns"
    by (simp add: example_next exampleNext_def)
  have 3: "Header_Get (wrapped_Header (afterNext examplePlugin presetSink exampleRequest))
             (To (plugin_config examplePlugin)) \<noteq> []"
    by (simp add: h g example_config)
  have v: "Value (req_Context exampleRequest) traceKey = Inr (AnyString ''abc-123'')"
    by (simp add: exampleRequest_def)
  from no_overwrite_keeps_destination_header [OF 1 2 3, of asciiOnly] 1 2 v h g
  show ?thesis
    by (simp add: example_config wrapped_Header_def)
qed

text \<open>
  C6. When the request has no value for the source header (absent or empty), the rewrite
  does nothing: the sink is what flushing the adapter right after the downstream handler
  gives, and the header map is the one the downstream handler left.
\<close>

theorem missing_source_header_sets_nothing:
  assumes "Header_Get (req_Header req) (From (plugin_config p)) = []"
  shows "served_sink (ServeHTTP U p w req) = wrapped_w (Flush (afterNext p w req)) \<and>
         header (served_sink (ServeHTTP U p w req)) = wrapped_Header (afterNext p w req) \<and>
         served_outcome (ServeHTTP U p w req) =
           (if snd (plugin_next p req) = Returns then Returned else Panicked)"
proof (cases "snd (plugin_next p req)")
  case Returns
  from ServeHTTP_no_rewrite [OF serveBody_skip_source [OF Returns assms, where U = U and w = w]]
    Returns
  show ?thesis by (simp add: wrapped_Header_def)
next
  case Panics
  from ServeHTTP_no_rewrite [OF serveBody_panics [OF Panics, where U = U and w = w]] Panics
  show ?thesis by (simp add: wrapped_Header_def)
qed

theorem missing_source_header_sets_nothing_witness:
  "Header_Get (req_Header noSourceRequest) (From (plugin_config examplePlugin)) = [] \<and>
   Value (req_Context noSourceRequest) traceKey = Inr (AnyString ''abc-123'') \<and>
   header (served_sink (ServeHTTP asciiOnly examplePlugin plainSink noSourceRequest)) = Map.empty \<and>
   served_outcome (ServeHTTP asciiOnly examplePlugin plainSink noSourceRequest) = Returned"
proof -
  have 1: "Header_Get (req_Header noSourceRequest) (From (plugin_config examplePlugin)) = []"
    by (simp add: noSourceRequest_def Header_Get_def)
  have v: "Value (req_Context noSourceRequest) traceKey = Inr (AnyString ''abc-123'')"
    by (simp add: noSourceRequest_def exampleRequest_def)
  from missing_source_header_sets_nothing [OF 1, of asciiOnly plainSink] 1 v
  show ?thesis
    by (simp add: example_afterNext wrapped_Header_def wrap_def plainSink_fields example_next
          exampleNext_def)
qed

text \<open>
  C7. When the pattern matches the source header value zero times, the accumulated
  result is empty and the rewrite does nothing; this is no error: when the downstream
  handler returned, so does \<open>ServeHTTP\<close>.
\<close>

theorem zero_matches_set_nothing:
  assumes "FindAllStringSubmatchIndex (plugin_regex p)
             (Header_Get (req_Header req) (From (plugin_config p))) = []"
  shows "replacementOf U p (Header_Get (req_Header req) (From (plugin_config p))) = [] \<and>
         served_sink (ServeHTTP U p w req) = wrapped_w (Flush (afterNext p w req)) \<and>
         header (served_sink (ServeHTTP U p w req)) = wrapped_Header (afterNext p w req) \<and>
         served_outcome (ServeHTTP U p w req) =
           (if snd (plugin_next p req) = Returns then Returned else Panicked)"
proof -
  have e: "replacementOf U p (Header_Get (req_Header req) (From (plugin_config p))) = []"
    using assms by (simp add: replacementOf_def)
  show ?thesis
  proof (cases "snd (plugin_next p req)")
    case Returns
    from ServeHTTP_no_rewrite [OF serveBody_empty_replacement [OF Returns e, where w = w]]
      Returns e
    show ?thesis by (simp add: wrapped_Header_def)
  next
    case Panics
    from ServeHTTP_no_rewrite [OF serveBody_panics [OF Panics, where U = U and w = w]] Panics e
    show ?thesis by (simp add: wrapped_Header_def)
  qed
qed

theorem zero_matches_set_nothing_witness:
  "Header_Get (req_Header twoLinesRequest) (From (plugin_config examplePlugin)) = twoLines \<and>
   twoLines \<noteq> [] \<and>
   FindAllStringSubmatchIndex (plugin_regex examplePlugin) twoLines = [] \<and>
   Value (req_Context twoLinesRequest) traceKey = Inr (AnyString ''abc-123'') \<and>
   header (served_sink (ServeHTTP asciiOnly examplePlugin plainSink twoLinesRequest)) = Map.empty \<and>
   served_outcome (ServeHTTP asciiOnly examplePlugin plainSink twoLinesRequest) = Returned"
proof -
  have s: "Header_Get (req_Header twoLinesRequest) (From (plugin_config examplePlugin)) = twoLines"
    by (simp add: twoLinesRequest_def example_config example_source twoLines_def)
  have f: "FindAllStringSubmatchIndex (plugin_regex examplePlugin) twoLines = []"
    by (simp add: example_FindAll twoLines_def)
  have v: "Value (req_Context twoLinesRequest) traceKey = Inr (AnyString ''abc-123'')"
    by (simp add: twoLinesRequest_def exampleRequest_def)
  have n: "twoLines \<noteq> []" by (simp add: twoLines_def)
  from zero_matches_set_nothing [of examplePlugin twoLinesRequest asciiOnly plainSink] s f v n
  show ?thesis
    by (simp add: example_afterNext wrapped_Header_def wrap_def plainSink_fields example_next
          exampleNext_def)
qed

text \<open>
  C10. The key looked up is the plain string \<open>tracing.traceID\<close>. When the rewrite
  reaches its last step and the value under that key is not of type \<open>string\<close>, or the
  only value the context holds sits under any other key, the headers stay as the
  downstream handler left them.
\<close>

theorem only_a_string_under_the_plain_key_counts:
  assumes "reachesStep5 U p w req"
  shows "traceKey = AnyString ''tracing.traceID'' \<and>
         (Value (req_Context req) traceKey = Inr v \<and> assertString v = None \<longrightarrow>
            served_outcome (ServeHTTP U p w req) = Returned \<and>
            header (served_sink (ServeHTTP U p w req)) = wrapped_Header (afterNext p w req)) \<and>
         (req_Context req = valueCtx Background k v' \<and> k \<noteq> traceKey \<longrightarrow>
            served_outcome (ServeHTTP U p w req) = Returned \<and>
            header (served_sink (ServeHTTP U p w req)) = wrapped_Header (afterNext p w req))"
  using serveBody_step5 [OF assms]
  by (auto simp add: traceKey_def ServeHTTP_sink ServeHTTP_outcome wrapped_Header_def)

theorem only_a_string_under_the_plain_key_counts_witness:
  "reachesStep5 asciiOnly examplePlugin plainSink intTracedRequest \<and>
   Value (req_Context intTracedRequest) traceKey = Inr (AnyInt 7) \<and>
   assertString (AnyInt 7) = None \<and>
   header (served_sink (ServeHTTP asciiOnly examplePlugin plainSink intTracedRequest)) = Map.empty \<and>
   reachesStep5 asciiOnly examplePlugin plainSink typedKeyRequest \<and>
   req_Context typedKeyRequest =
     valueCtx Background (AnyDefined ''traceKey'' (AnyString ''tracing.traceID''))
       (AnyString ''abc-123'') \<and>
   AnyDefined ''traceKey'' (AnyString ''tracing.traceID'') \<noteq> traceKey \<and>
   header (served_sink (ServeHTTP asciiOnly examplePlugin plainSink typedKeyRequest)) = Map.empty"
proof -
  have r1: "reachesStep5 asciiOnly examplePlugin plainSink intTracedRequest"
    by (rule example_reaches) (simp add: intTracedRequest_def exampleRequest_def)
  have r2: "reachesStep5 asciiOnly examplePlugin plainSink typedKeyRequest"
    by (rule example_reaches) (simp add: typedKeyRequest_def exampleRequest_def)
  have v1: "Value (req_Context intTracedRequest) traceKey = Inr (AnyInt 7)"
    by (simp add: intTracedRequest_def)
  have c2: "req_Context typedKeyRequest =
     valueCtx Background (AnyDefined ''traceKey'' (AnyString ''tracing.traceID''))
       (AnyString ''abc-123'')"
    by (simp add: typedKeyRequest_def)
  have k: "AnyDefined ''traceKey'' (AnyString ''tracing.traceID'') \<noteq> traceKey"
    by (simp add: traceKey_def)
  from only_a_string_under_the_plain_key_counts [OF r1, of "AnyInt 7"]
       only_a_string_under_the_plain_key_counts
         [OF r2, of _ "AnyDefined ''traceKey'' (AnyString ''tracing.traceID'')" "AnyString ''abc-123''"]
       r1 r2 v1 c2 k
  show ?thesis
    by (simp add: example_afterNext wrapped_Header_def wrap_def plainSink_fields)
qed

text \<open>
  C3 (as amended). Step 3 finds all non-overlapping matches of the pattern in the source
  value, left to right (the first is the leftmost match, each further one is the next
  match after the one before it, no match comes after the last, none starts before the
  one before it ends, all lie inside the value), and the accumulated result is the
  concatenation, in the order of the matches, of the expansions of the replacement
  template, one per match (\<open>ExpandString\<close> appends the expansion to what it is given).
  With the default pattern and a source value that holds no line feed there is exactly
  one match, the whole value, and the result is the template expanded once against it.
\<close>

theorem replacement_concatenates_expansions:
  "allNonOverlapping (plugin_regex p) src (FindAllStringSubmatchIndex (plugin_regex p) src) \<and>
   leftToRight (FindAllStringSubmatchIndex (plugin_regex p) src) \<and>
   list_all (withinText src) (FindAllStringSubmatchIndex (plugin_regex p) src) \<and>
   replacementOf U p src =
     concat (map (ExpandString U (plugin_regex p) [] (Replacement (plugin_config p)) src)
               (FindAllStringSubmatchIndex (plugin_regex p) src)) \<and>
   ExpandString U (plugin_regex p) dst template src match =
     dst @ ExpandString U (plugin_regex p) [] template src match \<and>
   (plugin_regex p = compileSyntax defaultSyntax \<and> CHR 0x0A \<notin> set src \<longrightarrow>
      FindAllStringSubmatchIndex (plugin_regex p) src =
        [[0, int (length src), 0, int (length src)]] \<and>
      replacementOf U p src =
        ExpandString U (plugin_regex p) [] (Replacement (plugin_config p)) src
          [0, int (length src), 0, int (length src)])"
proof -
  have "ExpandString U (plugin_regex p) dst template src match =
          dst @ ExpandString U (plugin_regex p) [] template src match"
    unfolding ExpandString_def by (rule expand_append)
  then show ?thesis
    using FindAll_ordered [of "plugin_regex p" src]
      FindAll_allNonOverlapping [of "plugin_regex p" src]
    by (auto simp add: replacementOf_concat FindAll_default)
qed

theorem replacement_concatenates_expansions_witness:
  "allNonOverlapping (plugin_regex perRunePlugin) ''foo''
     [[0, 1, 0, 1], [1, 2, 1, 2], [2, 3, 2, 3]] \<and>
   \<not> allNonOverlapping (plugin_regex perRunePlugin) ''foo'' [[0, 1, 0, 1]] \<and>
   FindAllStringSubmatchIndex (plugin_regex perRunePlugin) ''foo'' =
     [[0, 1, 0, 1], [1, 2, 1, 2], [2, 3, 2, 3]] \<and>
   Replacement (plugin_config perRunePlugin) = ''[$1]'' \<and>
   replacementOf asciiOnly perRunePlugin ''foo'' = ''[f][o][o]'' \<and>
   plugin_regex examplePlugin = compileSyntax defaultSyntax \<and>
   CHR 0x0A \<notin> set ''foo'' \<and>
   FindAllStringSubmatchIndex (plugin_regex examplePlugin) ''foo'' = [[0, 3, 0, 3]] \<and>
   ExpandString asciiOnly (plugin_regex examplePlugin) [] ''$1'' ''foo'' [0, 3, 0, 3] = ''foo'' \<and>
   replacementOf asciiOnly examplePlugin ''foo'' = ''foo''"
proof -
  have first_only: "\<not> allNonOverlapping (plugin_regex perRunePlugin) ''foo'' [[0, 1, 0, 1]]"
    by (simp add: allNonOverlapping_def perRune_doExecute)
  have r: "plugin_regex examplePlugin = compileSyntax defaultSyntax"
    by (simp add: examplePlugin_def)
  have n: "CHR 0x0A \<notin> set ''foo''" by simp
  have e: "ExpandString asciiOnly (plugin_regex examplePlugin) [] ''$1'' ''foo'' [0, 3, 0, 3] = ''foo''"
    using expand_dollar_1 [of asciiOnly "''foo''"]
    by (simp add: ExpandString_def example_names)
  from replacement_concatenates_expansions
         [of perRunePlugin "''foo''" asciiOnly "[]" "''[$1]''" "[0, 1, 0, 1]"]
       replacement_concatenates_expansions
         [of examplePlugin "''foo''" asciiOnly "[]" "''$1''" "[0, 3, 0, 3]"]
       first_only r n e
  show ?thesis
    by (simp add: example_config perRune_FindAll perRune_template perRune_names perRune_expand
          ExpandString_def)
qed

theorem line_feed_in_source_counterexample:
  "plugin_regex examplePlugin = compileSyntax defaultSyntax \<and>
   Replacement (plugin_config examplePlugin) = ''$1'' \<and>
   twoLines = [CHR ''a'', CHR 0x0A, CHR ''b''] \<and>
   FindAllStringSubmatchIndex (plugin_regex examplePlugin) twoLines = [] \<and>
   replacementOf asciiOnly examplePlugin twoLines = [] \<and>
   ExpandString asciiOnly (plugin_regex examplePlugin) [] (Replacement (plugin_config examplePlugin))
     twoLines [0, 3, 0, 3] = twoLines"
proof -
  have e: "ExpandString asciiOnly (plugin_regex examplePlugin) [] ''$1'' twoLines [0, 3, 0, 3]
             = twoLines"
    using expand_dollar_1 [of asciiOnly twoLines]
    by (simp add: ExpandString_def example_names twoLines_def)
  have t: "twoLines = [CHR ''a'', CHR 0x0A, CHR ''b'']" by (simp add: twoLines_def)
  have f: "FindAllStringSubmatchIndex (plugin_regex examplePlugin) twoLines = []"
    by (simp add: example_FindAll twoLines_def)
  have r: "replacementOf asciiOnly examplePlugin twoLines = []"
    by (simp add: example_replacement twoLines_def)
  have p: "plugin_regex examplePlugin = compileSyntax defaultSyntax"
    by (simp add: examplePlugin_def)
  have c: "Replacement (plugin_config examplePlugin) = ''$1''"
    by (simp add: example_config)
  from e f r show ?thesis
    unfolding c by (intro conjI p t refl)
qed

text \<open>
  C9 (as amended). \<open>ServeHTTP\<close> itself runs the adapter's \<open>Flush\<close> exactly once, as its
  last action, however it leaves (skip, rewrite, or a panic of the downstream handler or
  of the context lookup): the sink it leaves is the flush of the adapter at that point.
  \<open>Flush\<close> is also a method the downstream handler can call, so the flushes of one
  request are that one and those of the downstream handler: exactly one when the
  downstream handler calls none.
\<close>

theorem deferred_flush_runs_once_at_exit:
  "served_sink (ServeHTTP U p w req) = wrapped_w (Flush (snd (serveBody U p (wrap w) req))) \<and>
   statusLines (served_sink (ServeHTTP U p w req)) =
     statusLines w + flushCalls (fst (plugin_next p req)) + 1 \<and>
   (flushCalls (fst (plugin_next p req)) = 0 \<longrightarrow>
      statusLines (served_sink (ServeHTTP U p w req)) = statusLines w + 1)"
  using ServeHTTP_statusLines [of U p w req] by (simp add: ServeHTTP_sink)

theorem deferred_flush_runs_once_at_exit_witness:
  "flushCalls (fst (plugin_next panickingPlugin exampleRequest)) = 0 \<and>
   served_outcome (ServeHTTP asciiOnly panickingPlugin plainSink exampleRequest) = Panicked \<and>
   statusLines (served_sink (ServeHTTP asciiOnly panickingPlugin plainSink exampleRequest)) = 1 \<and>
   flushCalls (fst (plugin_next examplePlugin noSourceRequest)) = 0 \<and>
   served_outcome (ServeHTTP asciiOnly examplePlugin plainSink noSourceRequest) = Returned \<and>
   statusLines (served_sink (ServeHTTP asciiOnly examplePlugin plainSink noSourceRequest)) = 1 \<and>
   flushCalls (fst (plugin_next examplePlugin exampleRequest)) = 0 \<and>
   statusLines (served_sink (ServeHTTP asciiOnly examplePlugin plainSink exampleRequest)) = 1"
proof -
  have p: "served_outcome (ServeHTTP asciiOnly panickingPlugin plainSink exampleRequest) = Panicked"
    by (simp add: ServeHTTP_outcome serveBody_panics example_plugin_variants panickingNext_def)
  have n: "Header_Get (req_Header noSourceRequest) (From (plugin_config examplePlugin)) = []"
    by (simp add: noSourceRequest_def Header_Get_def)
  have r: "served_outcome (ServeHTTP asciiOnly examplePlugin plainSink noSourceRequest) = Returned"
    by (simp add: ServeHTTP_outcome serveBody_skip_source n example_next exampleNext_def)
  have s: "statusLines plainSink = 0"
    by (simp add: statusLines_def plainSink_fields)
  from deferred_flush_runs_once_at_exit
         [of asciiOnly panickingPlugin plainSink exampleRequest, THEN conjunct2]
       deferred_flush_runs_once_at_exit
         [of asciiOnly examplePlugin plainSink noSourceRequest, THEN conjunct2]
       deferred_flush_runs_once_at_exit
         [of asciiOnly examplePlugin plainSink exampleRequest, THEN conjunct2]
       p r s
  show ?thesis
    by (simp add: flushCalls_def example_plugin_variants panickingNext_def example_next
          exampleNext_def)
qed

theorem downstream_flush_counterexample:
  "fst (plugin_next flushingPlugin noSourceRequest) = [CallWrite ''A'', CallFlush, CallWrite ''B''] \<and>
   served_outcome (ServeHTTP asciiOnly flushingPlugin plainSink noSourceRequest) = Returned \<and>
   received (served_sink (ServeHTTP asciiOnly flushingPlugin plainSink noSourceRequest)) =
     [SinkWriteHeader 200, SinkWrite ''A'', SinkWriteHeader 200, SinkWrite ''B''] \<and>
   statusLines (served_sink (ServeHTTP asciiOnly flushingPlugin plainSink noSourceRequest)) = 2"
proof -
  have n: "Header_Get (req_Header noSourceRequest) (From (plugin_config examplePlugin)) = []"
    by (simp add: noSourceRequest_def Header_Get_def)
  have r: "served_outcome (ServeHTTP asciiOnly flushingPlugin plainSink noSourceRequest) = Returned"
    by (simp add: ServeHTTP_outcome serveBody_skip_source n example_plugin_variants
          flushingNext_def)
  have c: "received (served_sink (ServeHTTP asciiOnly flushingPlugin plainSink noSourceRequest)) =
     [SinkWriteHeader 200, SinkWrite ''A'', SinkWriteHeader 200, SinkWrite ''B'']"
    by (simp add: ServeHTTP_received flushing_afterNext)
  from r c show ?thesis
    by (simp add: statusLines_def example_plugin_variants flushingNext_def)
qed

end
